theory Spec2Isabelle
  imports Complex_Main "HOL-Library.Multiset" "HOL-Library.Sublist"
begin

section \<open>Text: decimal formatting and the schema's patterns\<close>

text \<open>
  Strings are ASCII text, one \<open>char\<close> per character. The generator formats the running
  number of a transaction with the format specification \<open>0{width}d\<close>, the transform
  stage matches identifiers against anchored regular expressions. Both are modelled on
  \<open>string\<close>.
\<close>

definition digits :: string where
  "digits = ''0123456789''"

definition uppers :: string where
  "uppers = ''ABCDEFGHIJKLMNOPQRSTUVWXYZ''"

definition digit_char :: "nat \<Rightarrow> char" where
  "digit_char d = digits ! d"

definition is_digit :: "char \<Rightarrow> bool" where
  "is_digit c = (c \<in> set digits)"

definition is_upper :: "char \<Rightarrow> bool" where
  "is_upper c = (c \<in> set uppers)"

text \<open>The decimal digits of a natural number, most significant first (Python's \<open>str(n)\<close>).\<close>

fun str_nat :: "nat \<Rightarrow> string" where
  "str_nat n = (if n < 10 then [digit_char n] else str_nat (n div 10) @ [digit_char (n mod 10)])"

declare str_nat.simps [simp del]

text \<open>
  \<open>format(i, "0{width}d")\<close>: the sign of a negative number, then the digits, padded with
  zeros between sign and digits up to \<open>width\<close> characters in all. A number with more
  digits than \<open>width\<close> is not cut.
\<close>

definition format_0d :: "nat \<Rightarrow> int \<Rightarrow> string" where
  "format_0d width i =
     (let ds = str_nat (nat \<bar>i\<bar>);
          sign = (if i < 0 then ''-'' else [])
      in sign @ replicate (width - length sign - length ds) CHR ''0'' @ ds)"

text \<open>
  \<open>generate_transaction_id(i, prefix="txn", width=6)\<close> of the generator; the parameter
  \<open>prefix\<close> is \<open>pfx\<close> here.
\<close>

definition generate_transaction_id :: "int \<Rightarrow> string \<Rightarrow> nat \<Rightarrow> string" where
  "generate_transaction_id i pfx width = pfx @ ''_'' @ format_0d width i"

text \<open>
  The patterns of the schema are anchored sequences of fixed-width pieces: a literal,
  \<open>\d{n}\<close> or \<open>[A-Z]{n}\<close>. \<open>consume\<close> matches one piece at the front of the text and
  returns the rest. The closing \<open>$\<close> of Python's \<open>re\<close> matches at the end of the text
  and also just before a newline that ends the text.
\<close>

datatype piece = Literal string | Digits nat | Uppers nat

fun consume :: "piece \<Rightarrow> string \<Rightarrow> string option" where
  "consume (Literal l) s = (if take (length l) s = l then Some (drop (length l) s) else None)"
| "consume (Digits n) s =
     (if n \<le> length s \<and> list_all is_digit (take n s) then Some (drop n s) else None)"
| "consume (Uppers n) s =
     (if n \<le> length s \<and> list_all is_upper (take n s) then Some (drop n s) else None)"

fun consume_all :: "piece list \<Rightarrow> string \<Rightarrow> string option" where
  "consume_all [] s = Some s"
| "consume_all (p # ps) s = (case consume p s of None \<Rightarrow> None | Some r \<Rightarrow> consume_all ps r)"

definition at_end :: "string \<Rightarrow> bool" where
  "at_end r = (r = [] \<or> r = [CHR 0x0A])"

definition str_match :: "piece list \<Rightarrow> string \<Rightarrow> bool" where
  "str_match ps s = (case consume_all ps s of None \<Rightarrow> False | Some r \<Rightarrow> at_end r)"

definition txn_pattern :: "piece list" where
  "txn_pattern = [Literal ''txn_'', Digits 6]"

definition user_pattern :: "piece list" where
  "user_pattern = [Literal ''u_'', Digits 4]"

definition country_pattern :: "piece list" where
  "country_pattern = [Uppers 2]"


section \<open>Data frames and the validation library\<close>

text \<open>
  The transform stage reads the raw file into a pandas data frame and validates it with
  pandera (imported as \<open>pandera.pandas\<close>). The frame is modelled row by row: a row is its
  index label and its cells, in the order of the frame's columns. A cell is a missing
  value, a text, an integer, a float (its finite value, a rational) or a date-time (a
  point in time); the last kind only comes out of coercion.
\<close>

datatype cell = NaN | Str string | IntC int | Flt rat | Ts nat

record dataframe =
  columns :: "string list"
  rows :: "(nat \<times> cell list) list"

text \<open>\<open>pd.read_csv\<close> gives the rows the labels \<open>0, 1, 2, ...\<close> (a RangeIndex).\<close>

definition read_csv :: "string list \<Rightarrow> cell list list \<Rightarrow> dataframe" where
  "read_csv cols data = \<lparr>columns = cols, rows = zip [0..<length data] data\<rparr>"

text \<open>The cell of a row in a named column; a row that ends early is missing there.\<close>

fun position :: "string \<Rightarrow> string list \<Rightarrow> nat" where
  "position c [] = 0"
| "position c (x # xs) = (if x = c then 0 else Suc (position c xs))"

definition cell_at :: "string list \<Rightarrow> string \<Rightarrow> cell list \<Rightarrow> cell" where
  "cell_at cols c cells =
     (let k = position c cols in if k < length cells then cells ! k else NaN)"

definition column_values :: "dataframe \<Rightarrow> string \<Rightarrow> (nat \<times> cell) list" where
  "column_values df c = map (\<lambda>(i, cells). (i, cell_at (columns df) c cells)) (rows df)"

text \<open>
  How the library parses a text as a number or a date-time, and how it prints a number,
  is not part of this repository: these conversions are parameters of the model, and
  every theorem holds for all of them. A conversion acts on one cell at a time.
\<close>

record lib =
  str_of :: "cell \<Rightarrow> string"
  datetime_of :: "cell \<Rightarrow> nat option"
  float_of :: "cell \<Rightarrow> rat option"
  int_of :: "cell \<Rightarrow> int option"

datatype dtype = PaString | PaDateTime | PaFloat | PaInt

text \<open>
  Coercion of one cell to a column's type; \<open>None\<close> when it fails. A missing value stays
  missing, except that an integer column cannot hold one. A cell that has the type
  already is left as it is.
\<close>

fun coerce_cell :: "lib \<Rightarrow> dtype \<Rightarrow> cell \<Rightarrow> cell option" where
  "coerce_cell L PaString c =
     (case c of NaN \<Rightarrow> Some NaN | Str s \<Rightarrow> Some (Str s) | _ \<Rightarrow> Some (Str (str_of L c)))"
| "coerce_cell L PaDateTime c =
     (case c of NaN \<Rightarrow> Some NaN | Ts t \<Rightarrow> Some (Ts t) | _ \<Rightarrow> map_option Ts (datetime_of L c))"
| "coerce_cell L PaFloat c =
     (case c of NaN \<Rightarrow> Some NaN | Flt f \<Rightarrow> Some (Flt f) | _ \<Rightarrow> map_option Flt (float_of L c))"
| "coerce_cell L PaInt c =
     (case c of NaN \<Rightarrow> None | IntC n \<Rightarrow> Some (IntC n) | _ \<Rightarrow> map_option IntC (int_of L c))"

text \<open>
  The checks the schema uses. A check on a cell passes, fails, or raises when the cell is
  not of a kind the check can handle (the library reports a raised check as one failure
  case with no row index).
\<close>

datatype check =
    Str_matches "piece list"
  | Str_length nat nat
  | Gt rat
  | Isin_str "string list"
  | Isin_int "int list"

datatype outcome = Pass | Fail | Raise

definition of_bool_outcome :: "bool \<Rightarrow> outcome" where
  "of_bool_outcome b = (if b then Pass else Fail)"

fun run_check :: "check \<Rightarrow> cell \<Rightarrow> outcome" where
  "run_check (Str_matches p) c = (case c of Str s \<Rightarrow> of_bool_outcome (str_match p s) | _ \<Rightarrow> Raise)"
| "run_check (Str_length lo hi) c =
     (case c of Str s \<Rightarrow> of_bool_outcome (lo \<le> length s \<and> length s \<le> hi) | _ \<Rightarrow> Raise)"
| "run_check (Gt v) c =
     (case c of Flt f \<Rightarrow> of_bool_outcome (v < f) | IntC n \<Rightarrow> of_bool_outcome (v < of_int n)
      | _ \<Rightarrow> Raise)"
| "run_check (Isin_str vs) c = (case c of Str s \<Rightarrow> of_bool_outcome (s \<in> set vs) | _ \<Rightarrow> Fail)"
| "run_check (Isin_int vs) c =
     (case c of IntC n \<Rightarrow> of_bool_outcome (n \<in> set vs)
      | Flt f \<Rightarrow> of_bool_outcome (f \<in> set (map of_int vs)) | _ \<Rightarrow> Fail)"

record column =
  col_name :: string
  col_dtype :: dtype
  col_checks :: "check list"
  col_unique :: bool

text \<open>
  A failure case as \<open>SchemaErrors.failure_cases\<close> lists it: the column it is about, the
  check, and the index label of the row, which is \<open>None\<close> for a failure of a whole
  column or of the frame.
\<close>

record failure_case =
  fc_column :: string
  fc_check :: string
  fc_index :: "nat option"

definition failure :: "string \<Rightarrow> string \<Rightarrow> nat option \<Rightarrow> failure_case" where
  "failure c k i = \<lparr>fc_column = c, fc_check = k, fc_index = i\<rparr>"


fun check_name :: "check \<Rightarrow> string" where
  "check_name (Str_matches p) = ''str_matches''"
| "check_name (Str_length lo hi) = ''str_length''"
| "check_name (Gt v) = ''greater_than''"
| "check_name (Isin_str vs) = ''isin''"
| "check_name (Isin_int vs) = ''isin''"

subsection \<open>Validation with \<open>coerce=True\<close>, \<open>strict=True\<close> and \<open>lazy=True\<close>\<close>

text \<open>
  Lazy validation collects every failure case instead of stopping at the first one:
  \<^item> \<open>strict\<close>: a column of the frame that the schema does not have is a failure of the
    frame (no row index);
  \<^item> a column of the schema that the frame does not have is a failure of the frame too
    (columns are required unless declared otherwise);
  \<^item> \<open>coerce\<close>: every column the frame has is coerced to its type. When a cell cannot
    be coerced, the failing cells are listed with their rows and the column is left as
    it was: the remaining checks of the column then run on the values as read;
  \<^item> a column is not nullable unless declared otherwise: a missing value is a failure of
    its row;
  \<^item> \<open>unique=True\<close>: every row whose value occurs more than once in the column is a
    failure (pandera reports all duplicates: \<open>report_duplicates="all"\<close> is the default);
  \<^item> each check runs on the cells that are not missing; a failing cell is a failure of
    its row, and a check that raises (a comparison of a text with a number) is a failure
    of the column with no row index.
  This is what a current installation of pandera does; the source pins no version.
  The order of the failure cases is of no account: \<open>main\<close> takes the set of their indices.
\<close>

definition strict_failures :: "column list \<Rightarrow> dataframe \<Rightarrow> failure_case list" where
  "strict_failures S df =
     map (\<lambda>c. failure c ''column_in_schema'' None)
       (filter (\<lambda>c. c \<notin> set (map col_name S)) (columns df))"

definition presence_failures :: "column list \<Rightarrow> dataframe \<Rightarrow> failure_case list" where
  "presence_failures S df =
     map (\<lambda>c. failure c ''column_in_dataframe'' None)
       (filter (\<lambda>c. c \<notin> set (columns df)) (map col_name S))"

definition coerce_column :: "lib \<Rightarrow> dtype \<Rightarrow> (nat \<times> cell) list \<Rightarrow> (nat \<times> cell option) list" where
  "coerce_column L t vals = map (\<lambda>(i, c). (i, coerce_cell L t c)) vals"

definition coerced_ok :: "(nat \<times> cell option) list \<Rightarrow> bool" where
  "coerced_ok co = list_all (\<lambda>(i, c). c \<noteq> None) co"

definition unique_failures :: "string \<Rightarrow> (nat \<times> cell) list \<Rightarrow> failure_case list" where
  "unique_failures cn vals =
     map (\<lambda>(i, c). failure cn ''field_uniqueness'' (Some i))
       (filter (\<lambda>(i, c). 1 < count_list (map snd vals) c) vals)"

definition check_failures :: "string \<Rightarrow> check \<Rightarrow> (nat \<times> cell) list \<Rightarrow> failure_case list" where
  "check_failures cn ch vals =
     (let rs = map (\<lambda>(i, c). (i, run_check ch c)) (filter (\<lambda>(i, c). c \<noteq> NaN) vals)
      in if list_ex (\<lambda>(i, r). r = Raise) rs then [failure cn (check_name ch) None]
         else map (\<lambda>(i, r). failure cn (check_name ch) (Some i))
                (filter (\<lambda>(i, r). r = Fail) rs))"

definition column_failures :: "lib \<Rightarrow> column \<Rightarrow> dataframe \<Rightarrow> failure_case list" where
  "column_failures L col df =
     (let cn = col_name col;
          raw = column_values df cn;
          co = coerce_column L (col_dtype col) raw;
          vals = (if coerced_ok co then map (\<lambda>(i, c). (i, the c)) co else raw)
      in map (\<lambda>(i, c). failure cn ''coerce_dtype'' (Some i)) (filter (\<lambda>(i, c). c = None) co)
         @ map (\<lambda>(i, c). failure cn ''not_nullable'' (Some i)) (filter (\<lambda>(i, c). c = NaN) vals)
         @ (if col_unique col then unique_failures cn vals else [])
         @ concat (map (\<lambda>ch. check_failures cn ch vals) (col_checks col)))"

definition failure_cases :: "lib \<Rightarrow> column list \<Rightarrow> dataframe \<Rightarrow> failure_case list" where
  "failure_cases L S df =
     strict_failures S df @ presence_failures S df
     @ concat (map (\<lambda>col. column_failures L col df)
         (filter (\<lambda>col. col_name col \<in> set (columns df)) S))"

text \<open>
  The validated frame: the cells of every column of the schema, coerced. A row has one
  cell for each column.
\<close>

definition coerce_row :: "lib \<Rightarrow> column list \<Rightarrow> string list \<Rightarrow> cell list \<Rightarrow> cell list" where
  "coerce_row L S cols cells =
     map (\<lambda>(cn, c). case find (\<lambda>col. col_name col = cn) S of
                       None \<Rightarrow> c
                     | Some col \<Rightarrow> (case coerce_cell L (col_dtype col) c of
                                      None \<Rightarrow> c | Some c' \<Rightarrow> c'))
       (zip cols cells)"

definition coerce_frame :: "lib \<Rightarrow> column list \<Rightarrow> dataframe \<Rightarrow> dataframe" where
  "coerce_frame L S df =
     df\<lparr>rows := map (\<lambda>(i, cells). (i, coerce_row L S (columns df) cells)) (rows df)\<rparr>"

text \<open>
  \<open>schema.validate(df, lazy=True)\<close>: the validated frame, or \<open>SchemaErrors\<close> with the
  failure cases (the \<open>Inl\<close> branch).
\<close>

definition validate :: "lib \<Rightarrow> column list \<Rightarrow> dataframe \<Rightarrow> failure_case list + dataframe" where
  "validate L S df =
     (let fs = failure_cases L S df in if fs = [] then Inr (coerce_frame L S df) else Inl fs)"

section \<open>The transform stage\<close>

text \<open>The schema of \<open>main\<close> in \<open>transform_transactions.py\<close>.\<close>

definition schema :: "column list" where
  "schema =
   [\<lparr>col_name = ''transaction_id'', col_dtype = PaString,
      col_checks = [Str_matches txn_pattern], col_unique = True\<rparr>,
    \<lparr>col_name = ''user_id'', col_dtype = PaString,
      col_checks = [Str_matches user_pattern], col_unique = False\<rparr>,
    \<lparr>col_name = ''timestamp'', col_dtype = PaDateTime,
      col_checks = [], col_unique = False\<rparr>,
    \<lparr>col_name = ''amount'', col_dtype = PaFloat,
      col_checks = [Gt 0], col_unique = False\<rparr>,
    \<lparr>col_name = ''currency'', col_dtype = PaString,
      col_checks = [Isin_str [''USD'', ''EUR'', ''HUF'']], col_unique = False\<rparr>,
    \<lparr>col_name = ''payment_method'', col_dtype = PaString,
      col_checks = [Isin_str [''credit_card'', ''paypal'', ''debit_card'', ''bank_transfer'',
                              ''crypto'']],
      col_unique = False\<rparr>,
    \<lparr>col_name = ''country'', col_dtype = PaString,
      col_checks = [Str_length 2 2, Str_matches country_pattern], col_unique = False\<rparr>,
    \<lparr>col_name = ''device'', col_dtype = PaString,
      col_checks = [Isin_str [''mobile'', ''desktop'', ''tablet'']], col_unique = False\<rparr>,
    \<lparr>col_name = ''is_chargeback'', col_dtype = PaInt,
      col_checks = [Isin_int [0, 1]], col_unique = False\<rparr>]"

datatype py_error = TypeError | KeyError | ZeroDivisionError | SystemExit

definition and_then :: "'e + 'a \<Rightarrow> ('a \<Rightarrow> 'e + 'b) \<Rightarrow> 'e + 'b" where
  "and_then r f = (case r of Inl e \<Rightarrow> Inl e | Inr x \<Rightarrow> f x)"

text \<open>
  \<open>sorted(set(failures["index"]))\<close>: the index labels of the failure cases, without
  repetition, in ascending order. \<open>None\<close> and a number cannot be compared, so sorting a
  set that holds both raises \<open>TypeError\<close>.
\<close>

definition sorted_set :: "nat option list \<Rightarrow> py_error + nat option list" where
  "sorted_set xs =
     (if list_ex (\<lambda>x. x = None) xs
      then (if list_ex (\<lambda>x. x \<noteq> None) xs then Inl TypeError else Inr [None])
      else Inr (map Some (sort (remdups (map the xs)))))"

text \<open>
  \<open>df.loc[labels]\<close> takes the rows with the given labels, in the order of the labels;
  \<open>df.drop(index=labels)\<close> leaves them out. Both raise \<open>KeyError\<close> for a label the frame
  does not have.
\<close>

definition has_labels :: "dataframe \<Rightarrow> nat option list \<Rightarrow> bool" where
  "has_labels df ls = list_all (\<lambda>l. l \<in> set (map (Some \<circ> fst) (rows df))) ls"

definition loc :: "dataframe \<Rightarrow> nat option list \<Rightarrow> py_error + dataframe" where
  "loc df ls =
     (if has_labels df ls
      then Inr (df\<lparr>rows := concat (map (\<lambda>l. filter (\<lambda>r. Some (fst r) = l) (rows df)) ls)\<rparr>)
      else Inl KeyError)"

definition drop_index :: "dataframe \<Rightarrow> nat option list \<Rightarrow> py_error + dataframe" where
  "drop_index df ls =
     (if has_labels df ls
      then Inr (df\<lparr>rows := filter (\<lambda>r. Some (fst r) \<notin> set ls) (rows df)\<rparr>)
      else Inl KeyError)"

text \<open>
  "validate and separate good vs bad data": the \<open>try\<close> statement of \<open>main\<close>. The result
  is the pair \<open>(df_good, df_bad)\<close>, or the exception that leaves the \<open>except\<close> branch.
\<close>

definition separate :: "lib \<Rightarrow> column list \<Rightarrow> dataframe \<Rightarrow> py_error + dataframe \<times> dataframe" where
  "separate L S df_raw =
     (case validate L S df_raw of
        Inr df_validated \<Rightarrow> Inr (df_validated, \<lparr>columns = columns df_raw, rows = []\<rparr>)
      | Inl failures \<Rightarrow>
          and_then (sorted_set (map fc_index failures)) (\<lambda>bad_indices.
          and_then (loc df_raw bad_indices) (\<lambda>df_bad.
          and_then (drop_index df_raw bad_indices) (\<lambda>df_good.
          Inr (df_good, df_bad)))))"

text \<open>
  \<open>df.to_csv(file, index=False)\<close> writes the header and the rows without their index
  labels.
\<close>

definition to_csv :: "dataframe \<Rightarrow> string list \<times> cell list list" where
  "to_csv df = (columns df, map snd (rows df))"

text \<open>
  The summary that \<open>main\<close> prints, line by line. A ratio is printed as a percentage with
  two decimals; the model keeps the exact ratio. Python's \<open>/\<close> raises
  \<open>ZeroDivisionError\<close> for a zero divisor.
\<close>

datatype line =
    Total_records nat
  | Valid_records nat rat
  | Invalid_records nat rat
  | Moved_to_quarantine
  | No_invalid_records
  | Saved_to_curated

definition truediv :: "nat \<Rightarrow> nat \<Rightarrow> py_error + rat" where
  "truediv a b = (if b = 0 then Inl ZeroDivisionError else Inr (of_nat a / of_nat b))"

definition print_summary :: "nat \<Rightarrow> nat \<Rightarrow> nat \<Rightarrow> py_error + line list" where
  "print_summary total_records good_records bad_records =
     and_then
       (if total_records > 0
        then and_then (truediv good_records total_records) (\<lambda>v.
             and_then (truediv bad_records total_records) (\<lambda>w.
             Inr [Valid_records good_records v, Invalid_records bad_records w]))
        else Inr [])
       (\<lambda>ratios. Inr ([Total_records total_records] @ ratios
          @ [if bad_records > 0 then Moved_to_quarantine else No_invalid_records]
          @ [Saved_to_curated]))"

text \<open>
  \<open>main\<close> from the raw frame on (the run date, the paths and the reading of the file are
  left out): the curated file is always written, the quarantine file only when \<open>df_bad\<close>
  is not empty, then the summary is printed. An exception that \<open>main\<close> does not catch ends
  the run: the \<open>Inl\<close> branch.
\<close>

record run =
  curated_file :: dataframe
  quarantine_file :: "dataframe option"
  summary :: "line list"

definition empty :: "dataframe \<Rightarrow> bool" where
  "empty df = (rows df = [] \<or> columns df = [])"

definition main :: "lib \<Rightarrow> dataframe \<Rightarrow> py_error + run" where
  "main L df_raw =
     and_then (separate L schema df_raw) (\<lambda>(df_good, df_bad).
     and_then (print_summary (length (rows df_raw)) (length (rows df_good)) (length (rows df_bad)))
       (\<lambda>out.
     Inr \<lparr>curated_file = df_good,
          quarantine_file = (if \<not> empty df_bad then Some df_bad else None),
          summary = out\<rparr>))"


section \<open>The generator\<close>

text \<open>
  \<open>generate_transactions.py\<close> draws from two pseudo-random generators: the one of
  Python's \<open>random\<close> module and the one of the \<open>Faker\<close> instance. Their states are
  explicit here, and what a draw returns is the library's: a parameter of the model.
  Seeding replaces the state by one that the seed alone determines.
\<close>

record ('r, 'f) rng_lib =
  seed :: "int \<Rightarrow> 'r"
  seed_instance :: "int \<Rightarrow> 'f"
  choice :: "'r \<Rightarrow> string list \<Rightarrow> string \<times> 'r"
  uniform :: "'r \<Rightarrow> rat \<Rightarrow> rat \<Rightarrow> rat \<times> 'r"
  round2 :: "rat \<Rightarrow> rat"
  random :: "'r \<Rightarrow> rat \<times> 'r"
  date_time_between :: "'f \<Rightarrow> int \<Rightarrow> int \<Rightarrow> string \<times> 'f"
  country_code :: "'f \<Rightarrow> string \<times> 'f"

record ('r, 'f) rng_state =
  py_random :: 'r
  fake :: 'f

definition SEED :: int where
  "SEED = 42"

definition CURRENCIES :: "string list" where
  "CURRENCIES = [''USD'', ''EUR'', ''HUF'']"

definition PAYMENT_METHODS :: "string list" where
  "PAYMENT_METHODS = [''credit_card'', ''debit_card'', ''paypal'', ''bank_transfer'']"

definition DEVICES :: "string list" where
  "DEVICES = [''mobile'', ''desktop'', ''tablet'']"

definition CHARGEBACK_RATE :: rat where
  "CHARGEBACK_RATE = 5 / 100"

definition AMOUNT_MIN :: rat where
  "AMOUNT_MIN = 1"

definition AMOUNT_MAX :: rat where
  "AMOUNT_MAX = 1000"

definition N_USERS :: nat where
  "N_USERS = 300"

text \<open>The module's top level: \<open>random.seed(SEED)\<close>, \<open>fake = Faker()\<close>, \<open>fake.seed_instance(SEED)\<close>.\<close>

definition seeding :: "('r, 'f) rng_lib \<Rightarrow> ('r, 'f) rng_state \<Rightarrow> ('r, 'f) rng_state" where
  "seeding G st = st\<lparr>py_random := seed G SEED, fake := seed_instance G SEED\<rparr>"

record transaction =
  transaction_id :: string
  user_id :: string
  timestamp :: string
  amount :: rat
  currency :: string
  payment_method :: string
  country :: string
  device :: string
  is_chargeback :: int

text \<open>
  One pass of the loop of \<open>main\<close>, with the draws in the order of the source. A day is
  its number; the timestamp lies between the start of the day a year before \<open>today\<close> and
  the end of \<open>today\<close>.
\<close>

definition generate_transaction ::
  "('r, 'f) rng_lib \<Rightarrow> int \<Rightarrow> string list \<Rightarrow> ('r, 'f) rng_state \<Rightarrow> int
     \<Rightarrow> transaction \<times> ('r, 'f) rng_state" where
  "generate_transaction G today user_pool st i =
     (let (ts, f1) = date_time_between G (fake st) (today - 365) today;
          (uid, r1) = choice G (py_random st) user_pool;
          (x, r2) = uniform G r1 AMOUNT_MIN AMOUNT_MAX;
          (cur, r3) = choice G r2 CURRENCIES;
          (pm, r4) = choice G r3 PAYMENT_METHODS;
          (cc, f2) = country_code G f1;
          (dev, r5) = choice G r4 DEVICES;
          (u, r6) = random G r5
      in (\<lparr>transaction_id = generate_transaction_id i ''txn'' 6, user_id = uid,
            timestamp = ts, amount = round2 G x, currency = cur, payment_method = pm,
            country = cc, device = dev,
            is_chargeback = (if u < CHARGEBACK_RATE then 1 else 0)\<rparr>,
          \<lparr>py_random = r6, fake = f2\<rparr>))"

fun generate_all ::
  "('r, 'f) rng_lib \<Rightarrow> int \<Rightarrow> string list \<Rightarrow> ('r, 'f) rng_state \<Rightarrow> int list
     \<Rightarrow> transaction list" where
  "generate_all G today user_pool st [] = []"
| "generate_all G today user_pool st (i # is) =
     (let (t, st') = generate_transaction G today user_pool st i
      in t # generate_all G today user_pool st' is)"

text \<open>
  \<open>main\<close> of the generator for \<open>n_records\<close> records and the run date \<open>today\<close>: the frame
  it writes, or \<open>SystemExit\<close> for a count that is not positive.
\<close>

definition generate_main ::
  "('r, 'f) rng_lib \<Rightarrow> ('r, 'f) rng_state \<Rightarrow> int \<Rightarrow> int \<Rightarrow> py_error + transaction list" where
  "generate_main G st n_records today =
     (if n_records \<le> 0 then Inl SystemExit
      else let user_pool = map (\<lambda>i. ''u_'' @ format_0d 4 i) [1..int N_USERS]
           in Inr (generate_all G today user_pool st [1..n_records]))"

text \<open>A run of the script: the module is loaded, which seeds the generators, then \<open>main\<close> runs.\<close>

definition generate_run ::
  "('r, 'f) rng_lib \<Rightarrow> ('r, 'f) rng_state \<Rightarrow> int \<Rightarrow> int \<Rightarrow> py_error + transaction list" where
  "generate_run G ambient n_records today = generate_main G (seeding G ambient) n_records today"

section \<open>Derived notions and example data\<close>

text \<open>
  The failure cases of a frame, read row by row: \<open>frame_bad\<close> holds when some failure case
  has no row index, \<open>row_bad\<close> when a row has a failure case of its own. The examples are
  a batch header, five rows and conversions that parse one timestamp.
\<close>

definition bad_labels :: "lib \<Rightarrow> column list \<Rightarrow> dataframe \<Rightarrow> nat set" where
  "bad_labels L S df = {i. Some i \<in> set (map fc_index (failure_cases L S df))}"

definition cv :: "lib \<Rightarrow> column \<Rightarrow> string list \<Rightarrow> cell list \<Rightarrow> cell option" where
  "cv L col cols cells = coerce_cell L (col_dtype col) (cell_at cols (col_name col) cells)"

definition col_ok :: "lib \<Rightarrow> column \<Rightarrow> string list \<Rightarrow> cell list set \<Rightarrow> bool" where
  "col_ok L col cols R = (\<forall>cells \<in> R. cv L col cols cells \<noteq> None)"

definition col_val :: "lib \<Rightarrow> column \<Rightarrow> string list \<Rightarrow> cell list set \<Rightarrow> cell list \<Rightarrow> cell" where
  "col_val L col cols R cells =
     (if col_ok L col cols R then the (cv L col cols cells) else cell_at cols (col_name col) cells)"

definition column_bad :: "lib \<Rightarrow> column \<Rightarrow> string list \<Rightarrow> cell list set \<Rightarrow> bool" where
  "column_bad L col cols R =
     (\<exists>ch \<in> set (col_checks col). \<exists>cells \<in> R.
         col_val L col cols R cells \<noteq> NaN \<and> run_check ch (col_val L col cols R cells) = Raise)"

definition cell_bad :: "lib \<Rightarrow> column \<Rightarrow> string list \<Rightarrow> cell list list \<Rightarrow> cell list \<Rightarrow> bool" where
  "cell_bad L col cols rs cells =
     (let v = col_val L col cols (set rs) cells in
        cv L col cols cells = None
      \<or> v = NaN
      \<or> (col_unique col \<and> 1 < count_list (map (col_val L col cols (set rs)) rs) v)
      \<or> (\<exists>ch \<in> set (col_checks col). v \<noteq> NaN \<and> run_check ch v = Fail))"

definition frame_bad :: "lib \<Rightarrow> column list \<Rightarrow> string list \<Rightarrow> cell list set \<Rightarrow> bool" where
  "frame_bad L S cols R =
     ((\<exists>c \<in> set cols. c \<notin> col_name ` set S)
      \<or> (\<exists>col \<in> set S. col_name col \<notin> set cols)
      \<or> (\<exists>col \<in> set S. col_name col \<in> set cols \<and> column_bad L col cols R))"

definition row_bad :: "lib \<Rightarrow> column list \<Rightarrow> string list \<Rightarrow> cell list list \<Rightarrow> cell list \<Rightarrow> bool" where
  "row_bad L S cols rs cells =
     (\<exists>col \<in> set S. col_name col \<in> set cols \<and> cell_bad L col cols rs cells)"

definition example_lib :: lib where
  "example_lib =
     \<lparr>str_of = (\<lambda>c. []),
      datetime_of = (\<lambda>c. if c = Str ''2025-01-01T10:00:00'' then Some 0 else None),
      float_of = (\<lambda>c. None),
      int_of = (\<lambda>c. None)\<rparr>"

definition schema_columns :: "string list" where
  "schema_columns = [''transaction_id'', ''user_id'', ''timestamp'', ''amount'', ''currency'',
     ''payment_method'', ''country'', ''device'', ''is_chargeback'']"

definition crypto_row :: "cell list" where
  "crypto_row = [Str ''txn_000001'', Str ''u_0001'', Str ''2025-01-01T10:00:00'', Flt (25 / 2),
     Str ''USD'', Str ''crypto'', Str ''HU'', Str ''mobile'', IntC 0]"

definition cash_row :: "cell list" where
  "cash_row = [Str ''txn_000002'', Str ''u_0001'', Str ''2025-01-01T10:00:00'', Flt (25 / 2),
     Str ''USD'', Str ''cash'', Str ''HU'', Str ''mobile'', IntC 0]"

definition broken_row :: "cell list" where
  "broken_row = [Str ''txn_000003'', Str ''u_0002'', Str ''2025-01-01T10:00:00'', Flt (- 5),
     Str ''USD'', Str ''paypal'', Str ''USA'', Str ''mobile'', IntC 0]"

definition blank_row :: "cell list" where
  "blank_row = [Str ''txn_000004'', Str ''u_0002'', Str ''2025-01-01T10:00:00'', Flt 5,
     Str ''USD'', Str ''paypal'', Str ''US'', Str ''mobile'', NaN]"

definition text_amount_row :: "cell list" where
  "text_amount_row = [Str ''txn_000005'', Str ''u_0003'', Str ''2025-01-01T10:00:00'', Str ''abc'',
     Str ''USD'', Str ''paypal'', Str ''US'', Str ''mobile'', IntC 0]"


section \<open>Properties\<close>

subsection \<open>Decimal digits and the identifier pattern\<close>

lemma str_nat_digits: "list_all is_digit (str_nat n)"
proof (induction n rule: str_nat.induct)
  case (1 n)
  have d: "\<And>k. k < 10 \<Longrightarrow> is_digit (digit_char k)"
    unfolding is_digit_def digit_char_def by (rule nth_mem) (simp add: digits_def)
  show ?case
  proof (cases "n < 10")
    case True then show ?thesis by (subst str_nat.simps) (simp add: d)
  next
    case False
    with 1 show ?thesis by (subst str_nat.simps) (simp add: d)
  qed
qed

lemma str_nat_length: "length (str_nat n) \<le> k \<longleftrightarrow> (k > 0 \<and> n < 10 ^ k)"
proof (induction n arbitrary: k rule: str_nat.induct)
  case (1 n)
  show ?case
  proof (cases "n < 10")
    case True
    have "k > 0 \<Longrightarrow> n < 10 ^ k"
    proof -
      assume "k > 0"
      then have "(10::nat) ^ 1 \<le> 10 ^ k" by (intro power_increasing) auto
      with True show ?thesis by simp
    qed
    with True show ?thesis by (subst str_nat.simps) auto
  next
    case False
    have "length (str_nat n) = Suc (length (str_nat (n div 10)))"
      using False by (subst str_nat.simps) simp
    moreover have "(length (str_nat (n div 10)) \<le> k - 1) = (k - 1 > 0 \<and> n div 10 < 10 ^ (k - 1))"
      using 1[OF False] .
    moreover have "k > 1 \<Longrightarrow> (n div 10 < 10 ^ (k - 1)) = (n < 10 ^ k)"
    proof -
      assume "k > 1"
      then obtain j where k: "k = Suc j" by (cases k) auto
      show ?thesis unfolding k by (simp add: less_mult_imp_div_less div_less_iff_less_mult mult.commute)
    qed
    moreover have "k = 1 \<Longrightarrow> \<not> n < 10 ^ k" using False by simp
    ultimately show ?thesis by (cases "k = 0"; cases "k = 1") auto
  qed
qed

lemma consume_Digits_all:
  "list_all is_digit s \<Longrightarrow> n \<le> length s \<Longrightarrow> consume (Digits n) s = Some (drop n s)"
  by (auto simp: list_all_iff dest: in_set_takeD)

lemma consume_Digits_minus: "0 < n \<Longrightarrow> consume (Digits n) (CHR ''-'' # s) = None"
  by (cases n) (simp_all add: is_digit_def digits_def)

lemma str_match_txn:
  "str_match txn_pattern (''txn'' @ ''_'' @ f) =
     (case consume (Digits 6) f of None \<Rightarrow> False | Some r \<Rightarrow> at_end r)"
  by (simp add: txn_pattern_def str_match_def split: option.splits)

lemma at_end_digits: "list_all is_digit r \<Longrightarrow> at_end r \<longleftrightarrow> r = []"
  by (auto simp: at_end_def is_digit_def digits_def)

lemma generate_transaction_id_match:
  "str_match txn_pattern (generate_transaction_id i ''txn'' 6) \<longleftrightarrow> 0 \<le> i \<and> i \<le> 999999"
proof (cases "i < 0")
  case True
  then have "format_0d 6 i = CHR ''-'' # replicate (5 - length (str_nat (nat \<bar>i\<bar>))) CHR ''0'' @ str_nat (nat \<bar>i\<bar>)"
    by (simp add: format_0d_def Let_def)
  then have "consume (Digits 6) (format_0d 6 i) = None"
    by (simp only: consume_Digits_minus zero_less_numeral)
  then show ?thesis
    using True unfolding generate_transaction_id_def str_match_txn by simp
next
  case False
  define n where "n = nat \<bar>i\<bar>"
  define ds where "ds = str_nat n"
  define f where "f = format_0d 6 i"
  have f: "f = replicate (6 - length ds) CHR ''0'' @ ds"
    using False by (simp add: f_def format_0d_def Let_def ds_def n_def)
  have dig: "list_all is_digit ds" unfolding ds_def by (rule str_nat_digits)
  have z: "is_digit CHR ''0''" by (simp add: is_digit_def digits_def)
  have all: "list_all is_digit f"
    using dig z by (auto simp: f list_all_iff)
  have len: "length ds \<le> 6 \<longleftrightarrow> n < 10 ^ 6"
    unfolding ds_def by (simp add: str_nat_length)
  have ge: "6 \<le> length f" by (simp add: f)
  have c: "consume (Digits 6) f = Some (drop 6 f)"
    using all ge by (rule consume_Digits_all)
  have "list_all is_digit (drop 6 f)"
    using all by (auto simp: list_all_iff dest: in_set_dropD)
  then have e: "at_end (drop 6 f) \<longleftrightarrow> length f \<le> 6" by (simp add: at_end_digits)
  have "length f \<le> 6 \<longleftrightarrow> length ds \<le> 6" by (auto simp: f)
  also have "\<dots> \<longleftrightarrow> i \<le> 999999" using False by (auto simp: len n_def)
  finally have "at_end (drop 6 f) \<longleftrightarrow> i \<le> 999999" using e by simp
  then show ?thesis
    using False unfolding generate_transaction_id_def str_match_txn f_def[symmetric] c by simp
qed

subsection \<open>The outputs of a separation that returns\<close>

text \<open>
  A separation returns only when every failure case has a row index that is a label of
  the frame; the bad rows are then looked up label by label, in ascending order.
\<close>

lemma sorted_set_Inr:
  assumes "sorted_set xs = Inr ls" and "ls \<noteq> [None]"
  shows "None \<notin> set xs \<and> ls = map Some (sort (remdups (map the xs)))"
  using assms by (auto simp: sorted_set_def list_ex_iff split: if_splits)

lemma loc_None: "loc df [None] = Inl KeyError"
  by (auto simp: loc_def has_labels_def)

lemma concat_filter_sorted:
  fixes rs :: "(nat \<times> 'a) list"
  assumes "sorted_wrt (<) (map fst rs)" and "sorted_wrt (<) ls" and "set ls \<subseteq> fst ` set rs"
  shows "concat (map (\<lambda>l. filter (\<lambda>r. fst r = l) rs) ls) = filter (\<lambda>r. fst r \<in> set ls) rs"
  using assms
proof (induction rs arbitrary: ls)
  case Nil
  then show ?case by simp
next
  case (Cons r rs)
  obtain i x where r: "r = (i, x)" by (cases r)
  from Cons.prems(1) have gt: "\<forall>q \<in> set rs. i < fst q" and srs: "sorted_wrt (<) (map fst rs)"
    by (auto simp: r)
  show ?case
  proof (cases "i \<in> set ls")
    case False
    then have sub: "set ls \<subseteq> fst ` set rs" using Cons.prems(3) by (auto simp: r)
    have "concat (map (\<lambda>l. filter (\<lambda>q. fst q = l) (r # rs)) ls)
        = concat (map (\<lambda>l. filter (\<lambda>q. fst q = l) rs) ls)"
      using False by (intro arg_cong[where f = concat] map_cong) (auto simp: r)
    then show ?thesis using Cons.IH[OF srs Cons.prems(2) sub] False by (simp add: r)
  next
    case True
    then obtain l ls' where ls: "ls = l # ls'" by (cases ls) auto
    have ge: "\<forall>m \<in> set ls. i \<le> m"
    proof
      fix m assume "m \<in> set ls"
      then have "m \<in> fst ` set (r # rs)" using Cons.prems(3) by blast
      then show "i \<le> m" using gt by (auto simp: r)
    qed
    have li: "l = i"
    proof (rule ccontr)
      assume "l \<noteq> i"
      then have "i \<in> set ls'" using True ls by auto
      then have "l < i" using Cons.prems(2) ls by auto
      moreover have "i \<le> l" using ge ls by auto
      ultimately show False by simp
    qed
    have ls'gt: "\<forall>m \<in> set ls'. i < m" using Cons.prems(2) ls li by auto
    then have sub: "set ls' \<subseteq> fst ` set rs" using Cons.prems(3) ls by (auto simp: r)
    have s': "sorted_wrt (<) ls'" using Cons.prems(2) ls by simp
    have a: "filter (\<lambda>q. fst q = i) rs = []" using gt by (auto simp: filter_empty_conv)
    have b: "concat (map (\<lambda>l. filter (\<lambda>q. fst q = l) (r # rs)) ls')
        = concat (map (\<lambda>l. filter (\<lambda>q. fst q = l) rs) ls')"
      using ls'gt by (intro arg_cong[where f = concat] map_cong) (auto simp: r)
    have c: "filter (\<lambda>q. fst q \<in> set ls) rs = filter (\<lambda>q. fst q \<in> set ls') rs"
      using gt by (intro filter_cong) (auto simp: ls li)
    have "concat (map (\<lambda>l. filter (\<lambda>q. fst q = l) (r # rs)) ls)
        = filter (\<lambda>q. fst q = i) (r # rs) @ concat (map (\<lambda>l. filter (\<lambda>q. fst q = l) (r # rs)) ls')"
      by (simp only: ls li list.map concat.simps)
    also have "\<dots> = r # concat (map (\<lambda>l. filter (\<lambda>q. fst q = l) rs) ls')"
      unfolding b using a by (simp add: r)
    also have "\<dots> = r # filter (\<lambda>q. fst q \<in> set ls') rs"
      using Cons.IH[OF srs s' sub] by simp
    also have "\<dots> = filter (\<lambda>q. fst q \<in> set ls) (r # rs)"
      using c True by (simp add: r)
    finally show ?thesis .
  qed
qed

lemma separate_cases:
  assumes "separate L S df = Inr (g, b)"
  shows "(failure_cases L S df = [] \<and> g = coerce_frame L S df \<and> b = \<lparr>columns = columns df, rows = []\<rparr>)
       \<or> (failure_cases L S df \<noteq> [] \<and> None \<notin> set (map fc_index (failure_cases L S df))
           \<and> bad_labels L S df \<subseteq> fst ` set (rows df)
           \<and> b = df\<lparr>rows := concat (map (\<lambda>l. filter (\<lambda>r. fst r = l) (rows df))
                                (sort (remdups (map the (map fc_index (failure_cases L S df))))))\<rparr>
           \<and> g = df\<lparr>rows := filter (\<lambda>r. fst r \<notin> bad_labels L S df) (rows df)\<rparr>)"
proof (cases "failure_cases L S df = []")
  case True
  then show ?thesis using assms by (simp add: separate_def validate_def)
next
  case False
  define idx where "idx = map fc_index (failure_cases L S df)"
  from assms False obtain ls where
    ss: "sorted_set idx = Inr ls" and lb: "loc df ls = Inr b" and dr: "drop_index df ls = Inr g"
    by (auto simp: separate_def validate_def and_then_def idx_def split: sum.splits)
  have "ls \<noteq> [None]" using lb by (auto simp: loc_None)
  with ss have nn: "None \<notin> set idx" and ls: "ls = map Some (sort (remdups (map the idx)))"
    using sorted_set_Inr by blast+
  have "\<And>x. x \<in> set idx \<Longrightarrow> Some (the x) = x" using nn by (case_tac x) auto
  then have setls: "set ls = set idx" by (auto simp: ls image_iff)
  have hl: "has_labels df ls" using lb by (auto simp: loc_def split: if_splits)
  then have sub: "bad_labels L S df \<subseteq> fst ` set (rows df)"
    unfolding bad_labels_def idx_def[symmetric] has_labels_def setls[symmetric]
    by (auto simp: list_all_iff)
  have b: "b = df\<lparr>rows := concat (map (\<lambda>l. filter (\<lambda>r. fst r = l) (rows df)) (sort (remdups (map the idx))))\<rparr>"
    using lb hl by (simp add: loc_def ls comp_def)
  have "(\<lambda>r::nat \<times> cell list. Some (fst r) \<notin> set ls) = (\<lambda>r. fst r \<notin> bad_labels L S df)"
    by (simp add: setls bad_labels_def idx_def)
  then have g: "g = df\<lparr>rows := filter (\<lambda>r. fst r \<notin> bad_labels L S df) (rows df)\<rparr>"
    using dr hl by (simp add: drop_index_def)
  show ?thesis using False nn sub b g by (simp add: idx_def)
qed

subsection \<open>Failure cases of a column\<close>

text \<open>
  Which indices the failure cases of one column carry: no index exactly when the column
  is bad as a whole, and otherwise the labels of the rows whose cell is bad.
\<close>

lemma fc_index_failure [simp]: "fc_index (failure c k i) = i"
  by (simp add: failure_def)

lemma co_eq:
  "coerce_column L (col_dtype col) (column_values df (col_name col))
     = map (\<lambda>(i, cells). (i, cv L col (columns df) cells)) (rows df)"
  by (simp add: coerce_column_def column_values_def cv_def case_prod_unfold comp_def)

lemma coerced_ok_iff:
  "coerced_ok (coerce_column L (col_dtype col) (column_values df (col_name col)))
     \<longleftrightarrow> (\<forall>cells \<in> snd ` set (rows df). cv L col (columns df) cells \<noteq> None)"
  by (force simp: co_eq coerced_ok_def list_all_iff)

lemma check_failures_None:
  "None \<in> fc_index ` set (check_failures cn ch vals)
     \<longleftrightarrow> (\<exists>(i, c) \<in> set vals. c \<noteq> NaN \<and> run_check ch c = Raise)"
  by (force simp: check_failures_def Let_def list_ex_iff image_iff)

lemma check_failures_Some:
  "\<not> (\<exists>(i, c) \<in> set vals. c \<noteq> NaN \<and> run_check ch c = Raise) \<Longrightarrow>
   Some i \<in> fc_index ` set (check_failures cn ch vals)
     \<longleftrightarrow> (\<exists>c. (i, c) \<in> set vals \<and> c \<noteq> NaN \<and> run_check ch c = Fail)"
  by (force simp: check_failures_def Let_def list_ex_iff image_iff)

lemma unique_failures_idx:
  "x \<in> fc_index ` set (unique_failures cn vals)
     \<longleftrightarrow> (\<exists>i c. x = Some i \<and> (i, c) \<in> set vals \<and> 1 < count_list (map snd vals) c)"
  by (force simp: unique_failures_def image_iff)

lemma col_ok_iff:
  "coerced_ok (coerce_column L (col_dtype col) (column_values df (col_name col)))
     \<longleftrightarrow> col_ok L col (columns df) (snd ` set (rows df))"
  unfolding coerced_ok_iff col_ok_def ..

lemma vals_eq:
  "(if coerced_ok (coerce_column L (col_dtype col) (column_values df (col_name col)))
    then map (\<lambda>(i, c). (i, the c)) (coerce_column L (col_dtype col) (column_values df (col_name col)))
    else column_values df (col_name col))
   = map (\<lambda>(i, cells). (i, col_val L col (columns df) (snd ` set (rows df)) cells)) (rows df)"
proof (cases "col_ok L col (columns df) (snd ` set (rows df))")
  case True
  then show ?thesis
    unfolding col_ok_iff by (simp add: co_eq col_val_def case_prod_unfold comp_def)
next
  case False
  then show ?thesis
    unfolding col_ok_iff by (simp add: col_val_def column_values_def case_prod_unfold)
qed

lemma idx_append:
  "fc_index ` set (A @ B @ C @ concat (map g chs))
     = fc_index ` set A \<union> fc_index ` set B \<union> fc_index ` set C
       \<union> (\<Union>ch \<in> set chs. fc_index ` set (g ch))"
  by auto

lemma column_failures_idx:
  "fc_index ` set (column_failures L col df) =
      fc_index ` set (map (\<lambda>(i, c). failure (col_name col) ''coerce_dtype'' (Some i))
                        (filter (\<lambda>(i, c). c = None)
                           (map (\<lambda>(i, cells). (i, cv L col (columns df) cells)) (rows df))))
      \<union> fc_index ` set (map (\<lambda>(i, c). failure (col_name col) ''not_nullable'' (Some i))
                        (filter (\<lambda>(i, c). c = NaN)
                           (map (\<lambda>(i, cells). (i, col_val L col (columns df) (snd ` set (rows df)) cells)) (rows df))))
      \<union> fc_index ` set (if col_unique col
                          then unique_failures (col_name col)
                                 (map (\<lambda>(i, cells). (i, col_val L col (columns df) (snd ` set (rows df)) cells)) (rows df))
                          else [])
      \<union> (\<Union>ch \<in> set (col_checks col). fc_index ` set (check_failures (col_name col) ch
                 (map (\<lambda>(i, cells). (i, col_val L col (columns df) (snd ` set (rows df)) cells)) (rows df))))"
  unfolding column_failures_def Let_def vals_eq
  unfolding co_eq
  by (rule idx_append)

lemma column_failures_None:
  "None \<in> fc_index ` set (column_failures L col df)
     \<longleftrightarrow> column_bad L col (columns df) (snd ` set (rows df))"
proof -
  define f where "f = col_val L col (columns df) (snd ` set (rows df))"
  define vals where "vals = map (\<lambda>(i, cells). (i, f cells)) (rows df)"
  have n0: "None \<notin> fc_index ` set (map (\<lambda>(i, c). failure (col_name col) ''coerce_dtype'' (Some i))
                        (filter (\<lambda>(i, c). c = None)
                           (map (\<lambda>(i, cells). (i, cv L col (columns df) cells)) (rows df))))"
    by auto
  have n1: "None \<notin> fc_index ` set (map (\<lambda>(i, c). failure (col_name col) ''not_nullable'' (Some i))
                        (filter (\<lambda>(i, c). c = NaN) vals))"
    by auto
  have n2: "None \<notin> fc_index ` set (if col_unique col then unique_failures (col_name col) vals else [])"
    by (cases "col_unique col") (simp_all add: unique_failures_idx)
  have n3: "None \<in> (\<Union>ch \<in> set (col_checks col). fc_index ` set (check_failures (col_name col) ch vals))
        \<longleftrightarrow> (\<exists>ch \<in> set (col_checks col). \<exists>(i, c) \<in> set vals. c \<noteq> NaN \<and> run_check ch c = Raise)"
    by (simp add: check_failures_None)
  have "None \<in> fc_index ` set (column_failures L col df) \<longleftrightarrow>
        (\<exists>ch \<in> set (col_checks col). \<exists>(i, c) \<in> set vals. c \<noteq> NaN \<and> run_check ch c = Raise)"
    unfolding column_failures_idx f_def[symmetric] vals_def[symmetric] Un_iff
    using n0 n1 n2 n3 by blast
  also have "\<dots> \<longleftrightarrow> column_bad L col (columns df) (snd ` set (rows df))"
    unfolding column_bad_def vals_def f_def[symmetric] by (force simp: image_iff)
  finally show ?thesis .
qed

lemma column_failures_Some:
  assumes "\<not> column_bad L col (columns df) (snd ` set (rows df))"
  shows "Some i \<in> fc_index ` set (column_failures L col df)
     \<longleftrightarrow> (\<exists>cells. (i, cells) \<in> set (rows df)
            \<and> cell_bad L col (columns df) (map snd (rows df)) cells)"
proof -
  define f where "f = col_val L col (columns df) (snd ` set (rows df))"
  define vals where "vals = map (\<lambda>(i, cells). (i, f cells)) (rows df)"
  have nr: "\<And>ch. ch \<in> set (col_checks col) \<Longrightarrow>
          \<not> (\<exists>cells \<in> snd ` set (rows df). f cells \<noteq> NaN \<and> run_check ch (f cells) = Raise)"
    using assms unfolding column_bad_def f_def by auto
  have sv: "map snd vals = map f (map snd (rows df))"
    by (simp add: vals_def case_prod_unfold comp_def)
  have mem: "\<And>c. (i, c) \<in> set vals \<longleftrightarrow> (\<exists>cells. (i, cells) \<in> set (rows df) \<and> c = f cells)"
    by (auto simp: vals_def)
  have nraise: "\<And>ch. ch \<in> set (col_checks col) \<Longrightarrow>
          \<not> (\<exists>(i, c) \<in> set vals. c \<noteq> NaN \<and> run_check ch c = Raise)"
    using nr unfolding vals_def by (force simp: image_iff)
  have z: "Some i \<in> fc_index ` set (map (\<lambda>(i, c). failure (col_name col) ''coerce_dtype'' (Some i))
                        (filter (\<lambda>(i, c). c = None)
                           (map (\<lambda>(i, cells). (i, cv L col (columns df) cells)) (rows df))))
        \<longleftrightarrow> (\<exists>cells. (i, cells) \<in> set (rows df) \<and> cv L col (columns df) cells = None)"
    by (force simp: image_iff)
  have a: "Some i \<in> fc_index ` set (map (\<lambda>(i, c). failure (col_name col) ''not_nullable'' (Some i))
                        (filter (\<lambda>(i, c). c = NaN) vals))
        \<longleftrightarrow> (\<exists>cells. (i, cells) \<in> set (rows df) \<and> f cells = NaN)"
    using mem by (force simp: image_iff)
  have b: "Some i \<in> fc_index ` set (if col_unique col then unique_failures (col_name col) vals else [])
        \<longleftrightarrow> (\<exists>cells. (i, cells) \<in> set (rows df) \<and> col_unique col
               \<and> 1 < count_list (map f (map snd (rows df))) (f cells))"
  proof (cases "col_unique col")
    case True
    have "Some i \<in> fc_index ` set (unique_failures (col_name col) vals)
        \<longleftrightarrow> (\<exists>c. (i, c) \<in> set vals \<and> 1 < count_list (map snd vals) c)"
      by (simp add: unique_failures_idx)
    also have "\<dots> \<longleftrightarrow> (\<exists>cells. (i, cells) \<in> set (rows df)
               \<and> 1 < count_list (map f (map snd (rows df))) (f cells))"
      unfolding mem sv by blast
    finally show ?thesis using True by simp
  next
    case False
    then show ?thesis by simp
  qed
  have c: "Some i \<in> (\<Union>ch \<in> set (col_checks col). fc_index ` set (check_failures (col_name col) ch vals))
        \<longleftrightarrow> (\<exists>cells. (i, cells) \<in> set (rows df)
               \<and> (\<exists>ch \<in> set (col_checks col). f cells \<noteq> NaN \<and> run_check ch (f cells) = Fail))"
    using mem nraise by (auto simp: check_failures_Some)
  have sr: "set (map snd (rows df)) = snd ` set (rows df)" by simp
  have cb: "cell_bad L col (columns df) (map snd (rows df)) = (\<lambda>cells.
        cv L col (columns df) cells = None
      \<or> f cells = NaN
      \<or> (col_unique col \<and> 1 < count_list (map f (map snd (rows df))) (f cells))
      \<or> (\<exists>ch \<in> set (col_checks col). f cells \<noteq> NaN \<and> run_check ch (f cells) = Fail))"
    unfolding cell_bad_def Let_def sr f_def by (simp add: fun_eq_iff)
  show ?thesis
    unfolding column_failures_idx f_def[symmetric] vals_def[symmetric] Un_iff z a b c cb by blast
qed

subsection \<open>Failure cases of a frame\<close>

lemma strict_idx:
  "x \<in> fc_index ` set (strict_failures S df)
     \<longleftrightarrow> x = None \<and> (\<exists>c \<in> set (columns df). c \<notin> col_name ` set S)"
  by (auto simp: strict_failures_def image_iff)

lemma presence_idx:
  "x \<in> fc_index ` set (presence_failures S df)
     \<longleftrightarrow> x = None \<and> (\<exists>col \<in> set S. col_name col \<notin> set (columns df))"
  by (auto simp: presence_failures_def image_iff)

lemma failure_cases_idx:
  "x \<in> fc_index ` set (failure_cases L S df) \<longleftrightarrow>
     x \<in> fc_index ` set (strict_failures S df)
   \<or> x \<in> fc_index ` set (presence_failures S df)
   \<or> (\<exists>col \<in> set S. col_name col \<in> set (columns df)
         \<and> x \<in> fc_index ` set (column_failures L col df))"
  by (auto simp: failure_cases_def image_Un)

lemma failure_cases_None:
  "None \<in> fc_index ` set (failure_cases L S df)
     \<longleftrightarrow> frame_bad L S (columns df) (snd ` set (rows df))"
  unfolding failure_cases_idx strict_idx presence_idx column_failures_None frame_bad_def
  by blast

lemma failure_cases_Some:
  assumes "\<not> frame_bad L S (columns df) (snd ` set (rows df))"
  shows "Some i \<in> fc_index ` set (failure_cases L S df)
     \<longleftrightarrow> (\<exists>cells. (i, cells) \<in> set (rows df)
            \<and> row_bad L S (columns df) (map snd (rows df)) cells)"
proof -
  have nb: "\<And>col. col \<in> set S \<Longrightarrow> col_name col \<in> set (columns df)
       \<Longrightarrow> \<not> column_bad L col (columns df) (snd ` set (rows df))"
    using assms unfolding frame_bad_def by blast
  have "Some i \<in> fc_index ` set (failure_cases L S df) \<longleftrightarrow>
      (\<exists>col \<in> set S. col_name col \<in> set (columns df)
         \<and> Some i \<in> fc_index ` set (column_failures L col df))"
    unfolding failure_cases_idx strict_idx presence_idx by blast
  also have "\<dots> \<longleftrightarrow> (\<exists>col \<in> set S. col_name col \<in> set (columns df)
         \<and> (\<exists>cells. (i, cells) \<in> set (rows df)
            \<and> cell_bad L col (columns df) (map snd (rows df)) cells))"
    using nb column_failures_Some by blast
  also have "\<dots> \<longleftrightarrow> (\<exists>cells. (i, cells) \<in> set (rows df)
            \<and> row_bad L S (columns df) (map snd (rows df)) cells)"
    unfolding row_bad_def by blast
  finally show ?thesis .
qed

lemma failure_cases_empty_iff:
  "failure_cases L S df = [] \<longleftrightarrow>
     \<not> frame_bad L S (columns df) (snd ` set (rows df))
     \<and> (\<forall>cells \<in> snd ` set (rows df). \<not> row_bad L S (columns df) (map snd (rows df)) cells)"
proof -
  have "failure_cases L S df = [] \<longleftrightarrow> fc_index ` set (failure_cases L S df) = {}" by simp
  also have "\<dots> \<longleftrightarrow> None \<notin> fc_index ` set (failure_cases L S df)
       \<and> (\<forall>i. Some i \<notin> fc_index ` set (failure_cases L S df))"
    by (metis all_not_in_conv not_None_eq)
  also have "\<dots> \<longleftrightarrow> \<not> frame_bad L S (columns df) (snd ` set (rows df))
     \<and> (\<forall>cells \<in> snd ` set (rows df). \<not> row_bad L S (columns df) (map snd (rows df)) cells)"
    using failure_cases_None failure_cases_Some by fastforce
  finally show ?thesis .
qed

lemma count_list_mset: "mset xs = mset ys \<Longrightarrow> count_list xs = count_list ys"
  by (metis count_mset ext)

lemma cell_bad_perm:
  "mset rs = mset rs' \<Longrightarrow> cell_bad L col cols rs = cell_bad L col cols rs'"
proof -
  assume m: "mset rs = mset rs'"
  then have s: "set rs = set rs'" by (rule mset_eq_setD)
  from m have "mset (map (col_val L col cols (set rs)) rs) = mset (map (col_val L col cols (set rs)) rs')"
    by simp
  then have "count_list (map (col_val L col cols (set rs)) rs) = count_list (map (col_val L col cols (set rs)) rs')"
    by (rule count_list_mset)
  then show ?thesis unfolding cell_bad_def s[symmetric] by (simp add: fun_eq_iff)
qed

lemma row_bad_perm:
  "mset rs = mset rs' \<Longrightarrow> row_bad L S cols rs = row_bad L S cols rs'"
  by (simp add: row_bad_def fun_eq_iff cell_bad_perm[of rs rs'])

subsection \<open>Frames read from a file\<close>

text \<open>
  The labels of a frame read from a file ascend, so looking the bad labels up in
  ascending order filters the rows.
\<close>

lemma rows_read_csv: "(i, cells) \<in> set (rows (read_csv cols data)) \<longleftrightarrow> i < length data \<and> cells = data ! i"
  by (force simp: read_csv_def set_zip)

lemma labels_read_csv: "map fst (rows (read_csv cols data)) = [0..<length data]"
  by (simp add: read_csv_def)

lemma data_read_csv: "map snd (rows (read_csv cols data)) = data"
  by (simp add: read_csv_def)

lemma columns_read_csv: "columns (read_csv cols data) = cols"
  by (simp add: read_csv_def)

lemma sorted_wrt_sort_remdups: "sorted_wrt (<) (sort (remdups (xs :: nat list)))"
  by (simp add: strict_sorted_iff)

lemma separate_read_csv:
  assumes "separate L S (read_csv cols data) = Inr (g, b)"
  shows "columns g = cols" and "columns b = cols"
    and "None \<notin> fc_index ` set (failure_cases L S (read_csv cols data))"
    and "rows b = filter (\<lambda>r. Some (fst r) \<in> fc_index ` set (failure_cases L S (read_csv cols data)))
                    (rows (read_csv cols data))"
    and "rows g = (if failure_cases L S (read_csv cols data) = []
                   then rows (coerce_frame L S (read_csv cols data))
                   else filter (\<lambda>r. Some (fst r) \<notin> fc_index ` set (failure_cases L S (read_csv cols data)))
                          (rows (read_csv cols data)))"
proof -
  define df where "df = read_csv cols data"
  define fs where "fs = failure_cases L S df"
  have bl: "\<And>i. i \<in> bad_labels L S df \<longleftrightarrow> Some i \<in> fc_index ` set fs"
    by (simp add: bad_labels_def fs_def)
  from separate_cases[OF assms[folded df_def]]
  consider (ok) "fs = []" "g = coerce_frame L S df" "b = \<lparr>columns = columns df, rows = []\<rparr>"
    | (bad) "fs \<noteq> []" "None \<notin> set (map fc_index fs)" "bad_labels L S df \<subseteq> fst ` set (rows df)"
        "b = df\<lparr>rows := concat (map (\<lambda>l. filter (\<lambda>r. fst r = l) (rows df))
                                (sort (remdups (map the (map fc_index fs)))))\<rparr>"
        "g = df\<lparr>rows := filter (\<lambda>r. fst r \<notin> bad_labels L S df) (rows df)\<rparr>"
    unfolding fs_def by blast
  then have "columns g = cols \<and> columns b = cols \<and> None \<notin> fc_index ` set fs
      \<and> rows b = filter (\<lambda>r. Some (fst r) \<in> fc_index ` set fs) (rows df)
      \<and> rows g = (if fs = [] then rows (coerce_frame L S df)
                   else filter (\<lambda>r. Some (fst r) \<notin> fc_index ` set fs) (rows df))"
  proof cases
    case ok
    then show ?thesis by (simp add: coerce_frame_def df_def columns_read_csv)
  next
    case bad
    define ls where "ls = sort (remdups (map the (map fc_index fs)))"
    have setls: "set ls = bad_labels L S df"
    proof -
      have "\<And>x. x \<in> set (map fc_index fs) \<Longrightarrow> Some (the x) = x"
        using bad(2) by (case_tac x) auto
      then show ?thesis unfolding ls_def bad_labels_def fs_def[symmetric]
        by (auto simp: image_iff) (metis option.sel)
    qed
    have "sorted_wrt (<) (map fst (rows df))"
      by (simp add: df_def labels_read_csv)
    moreover have "sorted_wrt (<) ls" unfolding ls_def by (rule sorted_wrt_sort_remdups)
    moreover have "set ls \<subseteq> fst ` set (rows df)" using bad(3) setls by simp
    ultimately have "concat (map (\<lambda>l. filter (\<lambda>r. fst r = l) (rows df)) ls)
        = filter (\<lambda>r. fst r \<in> set ls) (rows df)"
      by (rule concat_filter_sorted)
    then have rb: "rows b = filter (\<lambda>r. fst r \<in> bad_labels L S df) (rows df)"
      unfolding setls using bad(4) by (simp add: ls_def)
    have cb: "columns b = cols" using bad(4) by (simp add: df_def columns_read_csv)
    have cg: "columns g = cols" using bad(5) by (simp add: df_def columns_read_csv)
    have rg: "rows g = filter (\<lambda>r. Some (fst r) \<notin> fc_index ` set fs) (rows df)"
      using bad(5) by (simp add: bl)
    have rb': "rows b = filter (\<lambda>r. Some (fst r) \<in> fc_index ` set fs) (rows df)"
      using rb by (simp add: bl)
    show ?thesis
      using bad(1,2) cb cg rg rb' by simp
  qed
  then show "columns g = cols" and "columns b = cols"
    and "None \<notin> fc_index ` set (failure_cases L S (read_csv cols data))"
    and "rows b = filter (\<lambda>r. Some (fst r) \<in> fc_index ` set (failure_cases L S (read_csv cols data)))
                    (rows (read_csv cols data))"
    and "rows g = (if failure_cases L S (read_csv cols data) = []
                   then rows (coerce_frame L S (read_csv cols data))
                   else filter (\<lambda>r. Some (fst r) \<notin> fc_index ` set (failure_cases L S (read_csv cols data)))
                          (rows (read_csv cols data)))"
    unfolding fs_def df_def by blast+
qed

subsection \<open>The summary never fails\<close>

lemma print_summary_total:
  "\<exists>out. print_summary n_total n_good n_bad = Inr out"
  by (simp add: print_summary_def truediv_def and_then_def)

lemma main_Inr:
  assumes "main L df = Inr r"
  obtains g b where "separate L schema df = Inr (g, b)" and "curated_file r = g"
    and "quarantine_file r = (if \<not> empty b then Some b else None)"
proof -
  from assms obtain g b where s: "separate L schema df = Inr (g, b)"
    by (auto simp: main_def and_then_def split: sum.splits)
  obtain out where p: "print_summary (length (rows df)) (length (rows g)) (length (rows b)) = Inr out"
    using print_summary_total by blast
  from assms s p have "r = \<lparr>curated_file = g, quarantine_file = (if \<not> empty b then Some b else None), summary = out\<rparr>"
    by (simp add: main_def and_then_def)
  then show ?thesis using that s by simp
qed

lemma count_list_two:
  assumes "i < length xs" "j < length xs" "i \<noteq> j" "xs ! i = xs ! j"
  shows "1 < count_list xs (xs ! i)"
proof -
  have *: "\<And>a b. a < b \<Longrightarrow> b < length xs \<Longrightarrow> xs ! a = xs ! b \<Longrightarrow> 1 < count_list xs (xs ! a)"
  proof -
    fix a b assume ab: "a < b" "b < length xs" "xs ! a = xs ! b"
    have xs: "xs = take b xs @ xs ! b # drop (Suc b) xs"
      using ab(2) by (simp add: id_take_nth_drop)
    have "take b xs ! a \<in> set (take b xs)"
      using ab by (intro nth_mem) simp
    then have "xs ! a \<in> set (take b xs)" using ab by simp
    then have "count_list (take b xs) (xs ! a) \<noteq> 0" by (simp only: count_list_0_iff not_not)
    then have "0 < count_list (take b xs) (xs ! a)" by simp
    moreover have "count_list xs (xs ! a) = count_list (take b xs) (xs ! a) + count_list (xs ! b # drop (Suc b) xs) (xs ! a)"
      by (subst xs) (simp only: count_list_append)
    moreover have "0 < count_list (xs ! b # drop (Suc b) xs) (xs ! a)" using ab(3) by simp
    ultimately show "1 < count_list xs (xs ! a)" by linarith
  qed
  show ?thesis
  proof (cases "i < j")
    case True then show ?thesis using *[of i j] assms by simp
  next
    case False
    then have "j < i" using assms(3) by simp
    then have "1 < count_list xs (xs ! j)" using *[of j i] assms by simp
    then show ?thesis using assms(4) by simp
  qed
qed

subsection \<open>The rows of the two outputs\<close>

lemma separate_not_frame_bad:
  assumes "separate L S (read_csv cols data) = Inr (g, b)"
  shows "\<not> frame_bad L S cols (set data)"
proof -
  have "None \<notin> fc_index ` set (failure_cases L S (read_csv cols data))"
    using separate_read_csv(3)[OF assms] .
  then show ?thesis
    unfolding failure_cases_None by (simp add: columns_read_csv data_read_csv flip: set_map)
qed

lemma failed_label_iff:
  assumes "separate L S (read_csv cols data) = Inr (g, b)"
  shows "Some i \<in> fc_index ` set (failure_cases L S (read_csv cols data))
     \<longleftrightarrow> i < length data \<and> row_bad L S cols data (data ! i)"
proof -
  have "\<not> frame_bad L S (columns (read_csv cols data)) (snd ` set (rows (read_csv cols data)))"
    using separate_not_frame_bad[OF assms]
    by (simp add: columns_read_csv data_read_csv flip: set_map)
  from failure_cases_Some[OF this, of i] show ?thesis
    by (simp add: rows_read_csv columns_read_csv data_read_csv)
qed

lemma separate_rows:
  assumes "separate L S (read_csv cols data) = Inr (g, b)"
  shows "rows b = filter (\<lambda>(i, cells). row_bad L S cols data cells) (zip [0..<length data] data)"
    and "rows g = (if \<exists>cells \<in> set data. row_bad L S cols data cells
                   then filter (\<lambda>(i, cells). \<not> row_bad L S cols data cells) (zip [0..<length data] data)
                   else map (\<lambda>(i, cells). (i, coerce_row L S cols cells)) (zip [0..<length data] data))"
proof -
  let ?df = "read_csv cols data"
  let ?I = "fc_index ` set (failure_cases L S ?df)"
  have rows: "rows ?df = zip [0..<length data] data" by (simp add: read_csv_def)
  have P: "\<And>r. r \<in> set (zip [0..<length data] data) \<Longrightarrow>
      (Some (fst r) \<in> ?I) = (case r of (i, cells) \<Rightarrow> row_bad L S cols data cells)"
  proof -
    fix r assume "r \<in> set (zip [0..<length data] data)"
    then have "fst r < length data \<and> snd r = data ! fst r"
      by (auto simp: set_zip)
    then obtain i where "r = (i, data ! i)" "i < length data"
      by (metis prod.collapse)
    then show "(Some (fst r) \<in> ?I) = (case r of (i, cells) \<Rightarrow> row_bad L S cols data cells)"
      by (simp add: failed_label_iff[OF assms])
  qed
  show "rows b = filter (\<lambda>(i, cells). row_bad L S cols data cells) (zip [0..<length data] data)"
    unfolding separate_read_csv(4)[OF assms] rows
    by (rule filter_cong[OF refl]) (use P in blast)
  have nf: "None \<notin> ?I" using separate_read_csv(3)[OF assms] .
  have e: "failure_cases L S ?df = [] \<longleftrightarrow> \<not> (\<exists>cells \<in> set data. row_bad L S cols data cells)"
  proof -
    have "failure_cases L S ?df = [] \<longleftrightarrow> ?I = {}" by simp
    also have "\<dots> \<longleftrightarrow> (\<forall>i. Some i \<notin> ?I)"
      using nf by (metis all_not_in_conv not_None_eq)
    also have "\<dots> \<longleftrightarrow> \<not> (\<exists>cells \<in> set data. row_bad L S cols data cells)"
      unfolding failed_label_iff[OF assms] by (metis in_set_conv_nth)
    finally show ?thesis .
  qed
  have "filter (\<lambda>r. Some (fst r) \<notin> ?I) (zip [0..<length data] data)
      = filter (\<lambda>(i, cells). \<not> row_bad L S cols data cells) (zip [0..<length data] data)"
    by (rule filter_cong[OF refl]) (use P in auto)
  then show "rows g = (if \<exists>cells \<in> set data. row_bad L S cols data cells
                   then filter (\<lambda>(i, cells). \<not> row_bad L S cols data cells) (zip [0..<length data] data)
                   else map (\<lambda>(i, cells). (i, coerce_row L S cols cells)) (zip [0..<length data] data))"
    unfolding separate_read_csv(5)[OF assms] e rows
    by (simp add: coerce_frame_def read_csv_def)
qed

subsection \<open>Completeness and order of the partition\<close>

lemma quarantined:
  assumes "separate L S (read_csv cols data) = Inr (g, b)" and "i < length data"
    and "row_bad L S cols data (data ! i)"
  shows "(i, data ! i) \<in> set (rows b)" and "i \<notin> fst ` set (rows g)"
proof -
  have z: "(i, data ! i) \<in> set (zip [0..<length data] data)"
    using assms(2) by (force simp: set_zip)
  show "(i, data ! i) \<in> set (rows b)"
    unfolding separate_rows(1)[OF assms(1)] using z assms(3) by simp
  have ex: "\<exists>cells \<in> set data. row_bad L S cols data cells"
    using assms(2,3) by (meson nth_mem)
  have "\<And>cells. (i, cells) \<in> set (zip [0..<length data] data) \<Longrightarrow> cells = data ! i"
    by (auto simp: set_zip)
  then show "i \<notin> fst ` set (rows g)"
    unfolding separate_rows(2)[OF assms(1)] using ex assms(3) by auto
qed

lemma labels_filter_zip:
  "map fst (filter (\<lambda>(i, cells). P cells) (zip [0..<length data] data))
     = filter (\<lambda>i. P (data ! i)) [0..<length data]"
proof -
  have "zip [0..<length data] data = map (\<lambda>i. (i, data ! i)) [0..<length data]"
    by (intro nth_equalityI) auto
  then show ?thesis by (simp add: filter_map comp_def)
qed

text \<open>
  When the separation of a batch returns, the index labels of \<open>df_good\<close> and \<open>df_bad\<close>
  are disjoint, none occurs twice, and together they are the labels \<open>0, ..., n - 1\<close> of
  the batch: every row of the batch is in exactly one output, whatever the number of its
  failure cases. A row of \<open>df_bad\<close> has the cells of the raw row; so has a row of
  \<open>df_good\<close>, except that a batch without any failure gives the validated frame, whose
  rows are the raw rows coerced.
\<close>

lemma partition_completeness:
  assumes "separate L S (read_csv cols data) = Inr (df_good, df_bad)"
  shows "set (map fst (rows df_good)) \<union> set (map fst (rows df_bad)) = {0..<length data}
       \<and> set (map fst (rows df_good)) \<inter> set (map fst (rows df_bad)) = {}
       \<and> distinct (map fst (rows df_good)) \<and> distinct (map fst (rows df_bad))
       \<and> (\<forall>(i, cells) \<in> set (rows df_bad). cells = data ! i)
       \<and> (\<forall>(i, cells) \<in> set (rows df_good).
             cells = data ! i \<or> rows df_bad = [] \<and> cells = coerce_row L S cols (data ! i))"
proof -
  let ?Z = "zip [0..<length data] data"
  let ?P = "row_bad L S cols data"
  have b: "rows df_bad = filter (\<lambda>(i, cells). ?P cells) ?Z"
    using separate_rows(1)[OF assms] .
  have lb: "map fst (rows df_bad) = filter (\<lambda>i. ?P (data ! i)) [0..<length data]"
    unfolding b by (rule labels_filter_zip)
  have zmem: "\<And>i cells. (i, cells) \<in> set ?Z \<Longrightarrow> i < length data \<and> cells = data ! i"
    by (auto simp: set_zip)
  have cb: "\<forall>(i, cells) \<in> set (rows df_bad). cells = data ! i"
    unfolding b using zmem by auto
  show ?thesis
  proof (cases "\<exists>cells \<in> set data. ?P cells")
    case True
    then have g: "rows df_good = filter (\<lambda>(i, cells). \<not> ?P cells) ?Z"
      using separate_rows(2)[OF assms] by simp
    have lg: "map fst (rows df_good) = filter (\<lambda>i. \<not> ?P (data ! i)) [0..<length data]"
      unfolding g by (rule labels_filter_zip)
    have cg: "\<forall>(i, cells) \<in> set (rows df_good). cells = data ! i"
      unfolding g using zmem by auto
    show ?thesis unfolding lb lg using cb cg by auto
  next
    case False
    then have g: "rows df_good = map (\<lambda>(i, cells). (i, coerce_row L S cols cells)) ?Z"
      using separate_rows(2)[OF assms] by simp
    have lg: "map fst (rows df_good) = [0..<length data]"
      unfolding g by (simp add: case_prod_unfold comp_def)
    have e: "rows df_bad = []"
      unfolding b using False by (auto simp: filter_empty_conv dest: set_zip_rightD)
    have cg: "\<forall>(i, cells) \<in> set (rows df_good). cells = coerce_row L S cols (data ! i)"
      unfolding g using zmem by auto
    show ?thesis unfolding lg using e cg by auto
  qed
qed

text \<open>
  When the separation returns, \<open>df_bad\<close> is a subsequence of the rows of the batch, and
  \<open>df_good\<close> is a subsequence of them or, for a batch without any failure, the validated
  frame, which has the rows of the batch in their order: in both outputs the index labels,
  which are the positions in the batch, ascend.
\<close>

lemma order_preservation:
  assumes "separate L S (read_csv cols data) = Inr (df_good, df_bad)"
  shows "subseq (rows df_bad) (rows (read_csv cols data))
       \<and> (subseq (rows df_good) (rows (read_csv cols data))
          \<or> rows df_good = rows (coerce_frame L S (read_csv cols data)))
       \<and> sorted_wrt (<) (map fst (rows df_good)) \<and> sorted_wrt (<) (map fst (rows df_bad))"
proof -
  let ?df = "read_csv cols data"
  let ?I = "fc_index ` set (failure_cases L S ?df)"
  have b: "rows df_bad = filter (\<lambda>r. Some (fst r) \<in> ?I) (rows ?df)"
    using separate_read_csv(4)[OF assms] .
  have g: "rows df_good = (if failure_cases L S ?df = [] then rows (coerce_frame L S ?df)
                else filter (\<lambda>r. Some (fst r) \<notin> ?I) (rows ?df))"
    using separate_read_csv(5)[OF assms] .
  have s: "sorted_wrt (<) (map fst (rows ?df))" by (simp add: labels_read_csv)
  have sf: "\<And>P. sorted_wrt (<) (map fst (filter P (rows ?df)))"
    using s by (simp add: sorted_wrt_map sorted_wrt_filter)
  have sc: "map fst (rows (coerce_frame L S ?df)) = map fst (rows ?df)"
    by (simp add: coerce_frame_def case_prod_unfold comp_def)
  have 1: "subseq (rows df_bad) (rows ?df)" unfolding b by simp
  have 2: "subseq (rows df_good) (rows ?df) \<or> rows df_good = rows (coerce_frame L S ?df)"
    unfolding g by simp
  have 3: "sorted_wrt (<) (map fst (rows df_good))"
    unfolding g using sf s by (simp add: sc)
  have 4: "sorted_wrt (<) (map fst (rows df_bad))" unfolding b by (rule sf)
  show ?thesis using 1 2 3 4 by blast
qed

subsection \<open>The generator, the summary and the generated identifiers\<close>

text \<open>
  Claim C9 (the generator is deterministic). A run of the generator seeds both
  pseudo-random generators with the constant \<open>SEED\<close> before it draws, so the batch depends
  on the number of records and the run date only: two runs with the same count and date
  give the same result, whatever state the generators were in before.
\<close>

theorem generator_deterministic:
  "generate_run G ambient1 n_records today = generate_run G ambient2 n_records today"
  by (cases ambient1; cases ambient2) (simp add: generate_run_def seeding_def)

text \<open>
  Claim C8, as amended (the empty batch). For the empty batch with the columns of the
  schema, both outputs are empty, no quarantine file is written, and the summary has the
  total 0 and leaves the two ratio lines out: the ratios are only computed under the guard
  \<open>total_records > 0\<close>, and no sentinel is printed in their place. For no counts at all does
  the summary divide by zero.
\<close>

theorem summary_empty_batch:
  "main L (read_csv (map col_name schema) [])
     = Inr \<lparr>curated_file = \<lparr>columns = map col_name schema, rows = []\<rparr>,
            quarantine_file = None,
            summary = [Total_records 0, No_invalid_records, Saved_to_curated]\<rparr>
   \<and> print_summary n_total n_good n_bad \<noteq> Inl ZeroDivisionError"
proof -
  have "failure_cases L schema (read_csv (map col_name schema) []) = []"
    by (simp add: failure_cases_def strict_failures_def presence_failures_def column_failures_def
        column_values_def coerce_column_def coerced_ok_def unique_failures_def check_failures_def
        read_csv_def schema_def Let_def)
  then have "separate L schema (read_csv (map col_name schema) [])
      = Inr (\<lparr>columns = map col_name schema, rows = []\<rparr>, \<lparr>columns = map col_name schema, rows = []\<rparr>)"
    by (simp add: separate_def validate_def coerce_frame_def read_csv_def)
  then have 1: "main L (read_csv (map col_name schema) [])
     = Inr \<lparr>curated_file = \<lparr>columns = map col_name schema, rows = []\<rparr>,
            quarantine_file = None,
            summary = [Total_records 0, No_invalid_records, Saved_to_curated]\<rparr>"
    by (simp add: main_def and_then_def print_summary_def empty_def read_csv_def)
  have 2: "print_summary n_total n_good n_bad \<noteq> Inl ZeroDivisionError"
    using print_summary_total[of n_total n_good n_bad] by auto
  show ?thesis using 1 2 by simp
qed

text \<open>
  The summary of the empty batch has three lines, none of them a ratio: the claim's
  sentinel values for the ratios are not in the report.
\<close>

theorem summary_empty_batch_no_ratio:
  "print_summary 0 0 0 = Inr [Total_records 0, No_invalid_records, Saved_to_curated]"
  by (simp add: print_summary_def and_then_def)

text \<open>
  Claim C10, as amended (generated identifiers and the schema's pattern). The identifier
  generated for \<open>i\<close> matches the pattern of the \<open>transaction_id\<close> column if and only if
  \<open>0 \<le> i \<le> 999999\<close>. The generator counts from 1, so its identifiers match exactly up to
  record 999999; from record 1000000 on the number has seven digits and the identifier
  fails the check.
\<close>

theorem transaction_id_pattern:
  "str_match txn_pattern (generate_transaction_id i ''txn'' 6) \<longleftrightarrow> 0 \<le> i \<and> i \<le> 999999"
  by (rule generate_transaction_id_match)

text \<open>The identifier for \<open>i = 0\<close> is \<open>txn_000000\<close>, which matches, although \<open>0 < 1\<close>.\<close>

theorem transaction_id_zero:
  "str_match txn_pattern (generate_transaction_id 0 ''txn'' 6) \<and> \<not> (1 \<le> (0 :: int) \<and> (0 :: int) \<le> 999999)"
  by (simp add: generate_transaction_id_def format_0d_def str_nat.simps digit_char_def digits_def
      str_match_def txn_pattern_def at_end_def is_digit_def eval_nat_numeral)

subsection \<open>Runs of main\<close>

lemma main_of_separate:
  assumes "separate L schema df = Inr (g, b)"
  shows "\<exists>out. main L df = Inr \<lparr>curated_file = g,
            quarantine_file = (if \<not> empty b then Some b else None), summary = out\<rparr>"
proof -
  obtain out where "print_summary (length (rows df)) (length (rows g)) (length (rows b)) = Inr out"
    using print_summary_total by blast
  then show ?thesis using assms by (simp add: main_def and_then_def)
qed

lemma frame_bad_aborts:
  assumes "frame_bad L schema cols (set data)"
  shows "\<exists>e. main L (read_csv cols data) = Inl e"
proof (cases "main L (read_csv cols data)")
  case (Inl e)
  then show ?thesis by blast
next
  case (Inr r)
  then obtain g b where "separate L schema (read_csv cols data) = Inr (g, b)"
    by (rule main_Inr)
  then have "\<not> frame_bad L schema cols (set data)" by (rule separate_not_frame_bad)
  with assms show ?thesis by simp
qed

lemma schema_names: "map col_name schema = schema_columns"
  by (simp add: schema_def schema_columns_def)

lemma schema_columns_present:
  assumes "\<not> frame_bad L schema cols R" and "c \<in> set schema_columns"
  shows "c \<in> set cols"
  using assms unfolding frame_bad_def schema_names[symmetric] by auto

lemma main_quarantined:
  assumes "main L (read_csv cols data) = Inr r" and "i < length data"
    and "row_bad L schema cols data (data ! i)"
  shows "\<exists>q. quarantine_file r = Some q \<and> (i, data ! i) \<in> set (rows q)"
    and "i \<notin> fst ` set (rows (curated_file r))"
proof -
  from assms(1) obtain g b where s: "separate L schema (read_csv cols data) = Inr (g, b)"
    and c: "curated_file r = g" and q: "quarantine_file r = (if \<not> empty b then Some b else None)"
    by (rule main_Inr)
  have m: "(i, data ! i) \<in> set (rows b)" using quarantined(1)[OF s assms(2,3)] .
  have "\<not> frame_bad L schema cols (set data)" using s by (rule separate_not_frame_bad)
  then have "''transaction_id'' \<in> set cols"
    by (rule schema_columns_present) (simp add: schema_columns_def)
  then have "columns b \<noteq> []" using separate_read_csv(2)[OF s] by auto
  then have "\<not> empty b" using m by (auto simp: empty_def)
  then show "\<exists>q. quarantine_file r = Some q \<and> (i, data ! i) \<in> set (rows q)"
    using q m by simp
  show "i \<notin> fst ` set (rows (curated_file r))"
    unfolding c using quarantined(2)[OF s assms(2,3)] .
qed

subsection \<open>Duplicate keys\<close>

lemma duplicate_row_bad:
  assumes "col \<in> set S" and "col_name col \<in> set cols" and "col_unique col"
    and "i < length data" "j < length data" "i \<noteq> j"
    and "cell_at cols (col_name col) (data ! i) = cell_at cols (col_name col) (data ! j)"
  shows "row_bad L S cols data (data ! i)"
proof -
  define f where "f = col_val L col cols (set data)"
  have "f (data ! i) = f (data ! j)" using assms(7) by (simp add: f_def col_val_def cv_def)
  then have "map f data ! i = map f data ! j" using assms(4,5) by simp
  then have "1 < count_list (map f data) (map f data ! i)"
    using assms(4,5,6) by (intro count_list_two[where j = j]) simp_all
  then have "1 < count_list (map f data) (f (data ! i))" using assms(4) by simp
  then have "cell_bad L col cols data (data ! i)"
    using assms(3) by (simp add: cell_bad_def Let_def f_def)
  then show ?thesis using assms(1,2) unfolding row_bad_def by blast
qed

text \<open>
  When a run completes and two different rows of the batch have the same
  \<open>transaction_id\<close> cell, both rows are in the quarantine file and neither is in the
  curated file, whatever their other cells are.
\<close>

lemma uniqueness_propagation:
  assumes "main L (read_csv cols data) = Inr r"
    and "i < length data" and "j < length data" and "i \<noteq> j"
    and "cell_at cols ''transaction_id'' (data ! i) = cell_at cols ''transaction_id'' (data ! j)"
  shows "(\<exists>q. quarantine_file r = Some q \<and> (i, data ! i) \<in> set (rows q) \<and> (j, data ! j) \<in> set (rows q))
       \<and> i \<notin> fst ` set (rows (curated_file r)) \<and> j \<notin> fst ` set (rows (curated_file r))"
proof -
  let ?col = "\<lparr>col_name = ''transaction_id'', col_dtype = PaString,
      col_checks = [Str_matches txn_pattern], col_unique = True\<rparr>"
  have mem: "?col \<in> set schema" by (simp add: schema_def)
  from assms(1) obtain g b where s: "separate L schema (read_csv cols data) = Inr (g, b)"
    by (rule main_Inr)
  have "\<not> frame_bad L schema cols (set data)" using s by (rule separate_not_frame_bad)
  then have pres: "col_name ?col \<in> set cols"
    by (rule schema_columns_present) (simp add: schema_columns_def)
  have bi: "row_bad L schema cols data (data ! i)"
    using mem pres _ assms(2,3,4) by (rule duplicate_row_bad) (use assms(5) in simp_all)
  have bj: "row_bad L schema cols data (data ! j)"
    using mem pres _ assms(3,2) by (rule duplicate_row_bad) (use assms(4,5) in simp_all)
  from main_quarantined[OF assms(1,2) bi] main_quarantined[OF assms(1,3) bj]
  show ?thesis by auto
qed

text \<open>
  Claim C2 (uniqueness propagation). Two otherwise valid records share the
  \<open>transaction_id\<close> \<open>txn_000001\<close>, and a third record of the batch has the amount \<open>abc\<close>.
  Both duplicates have a failure case with their row index. The amount of the third
  record cannot be coerced, the \<open>greater_than\<close> check raises on the text, and the failure
  case of the raised check has no row index: sorting the indices raises \<open>TypeError\<close>, the
  run aborts, and neither duplicate reaches the quarantine file.
\<close>

theorem duplicates_not_quarantined:
  "map fc_index (failure_cases example_lib schema
       (read_csv schema_columns [crypto_row, crypto_row, text_amount_row]))
     = [Some 0, Some 1, Some 2, None]
   \<and> main example_lib (read_csv schema_columns [crypto_row, crypto_row, text_amount_row])
     = Inl TypeError"
  by code_simp

subsection \<open>The membership check of \<open>payment_method\<close>\<close>

lemma column_failures_column:
  "fc \<in> set (column_failures L col df) \<Longrightarrow> fc_column fc = col_name col"
  by (auto simp: column_failures_def Let_def unique_failures_def check_failures_def failure_def
      split: if_splits)

lemma failure_cases_row_column:
  assumes "fc \<in> set (failure_cases L S df)" and "fc_index fc = Some i"
  shows "\<exists>col \<in> set S. col_name col \<in> set (columns df) \<and> fc \<in> set (column_failures L col df)"
  using assms
  by (auto simp: failure_cases_def strict_failures_def presence_failures_def failure_def)

lemma column_failures_subset:
  assumes "col \<in> set S" and "col_name col \<in> set (columns df)"
  shows "set (column_failures L col df) \<subseteq> set (failure_cases L S df)"
  using assms by (auto simp: failure_cases_def)

lemma string_col_ok: "col_dtype col = PaString \<Longrightarrow> col_ok L col cols R"
  unfolding col_ok_def cv_def
proof
  fix cells assume "col_dtype col = PaString"
  then show "coerce_cell L (col_dtype col) (cell_at cols (col_name col) cells) \<noteq> None"
    by (cases "cell_at cols (col_name col) cells") simp_all
qed

lemma payment_method_failure:
  fixes L cols data
  defines "pm \<equiv> \<lparr>col_name = ''payment_method'', col_dtype = PaString,
      col_checks = [Isin_str [''credit_card'', ''paypal'', ''debit_card'', ''bank_transfer'',
                              ''crypto'']],
      col_unique = False\<rparr>"
  assumes "i < length data" and "cell_at cols ''payment_method'' (data ! i) = Str s"
  shows "Some i \<in> fc_index ` set (column_failures L pm (read_csv cols data))
     \<longleftrightarrow> s \<notin> set [''credit_card'', ''paypal'', ''debit_card'', ''bank_transfer'', ''crypto'']"
proof -
  let ?df = "read_csv cols data"
  have ok: "col_ok L pm cols (set data)" by (rule string_col_ok) (simp add: pm_def)
  have noraise: "\<And>vs c. run_check (Isin_str vs) c \<noteq> Raise"
    by (case_tac c) (simp_all add: of_bool_outcome_def)
  have nb: "\<not> column_bad L pm (columns ?df) (snd ` set (rows ?df))"
    unfolding column_bad_def using noraise by (auto simp: pm_def)
  have v: "col_val L pm cols (set data) (data ! i) = Str s"
    using ok assms(3) by (simp add: col_val_def cv_def pm_def)
  have c: "cv L pm cols (data ! i) = Some (Str s)"
    using assms(3) by (simp add: cv_def pm_def)
  have "Some i \<in> fc_index ` set (column_failures L pm ?df)
      \<longleftrightarrow> cell_bad L pm cols data (data ! i)"
    unfolding column_failures_Some[OF nb]
    using assms(2) by (simp add: rows_read_csv columns_read_csv data_read_csv)
  also have "\<dots> \<longleftrightarrow> s \<notin> set [''credit_card'', ''paypal'', ''debit_card'', ''bank_transfer'', ''crypto'']"
    unfolding cell_bad_def Let_def v c by (simp add: pm_def of_bool_outcome_def)
  finally show ?thesis .
qed

text \<open>
  A batch of one valid record that pays with \<open>crypto\<close>: the record is curated and nothing
  is quarantined, since the schema's \<open>isin\<close> list for \<open>payment_method\<close> has \<open>crypto\<close>.
\<close>

theorem crypto_is_curated:
  "main example_lib (read_csv schema_columns [crypto_row])
     = Inr \<lparr>curated_file = \<lparr>columns = schema_columns,
              rows = [(0, [Str ''txn_000001'', Str ''u_0001'', Ts 0, Flt (25 / 2), Str ''USD'',
                           Str ''crypto'', Str ''HU'', Str ''mobile'', IntC 0])]\<rparr>,
            quarantine_file = None,
            summary = [Total_records 1, Valid_records 1 1, Invalid_records 0 0,
              No_invalid_records, Saved_to_curated]\<rparr>"
  by code_simp

text \<open>
  Claim C1, as amended (membership of \<open>payment_method\<close>). The schema allows the five
  values \<open>credit_card\<close>, \<open>paypal\<close>, \<open>debit_card\<close>, \<open>bank_transfer\<close> and \<open>crypto\<close>. For
  every batch on which the run completes and every record of it whose \<open>payment_method\<close>
  is a text: the record has a failure case of the \<open>payment_method\<close> column if and only if
  the text is outside these five; it is in the quarantine file if and only if it has a
  failure case, and in the curated file if and only if it has none. So a record that
  pays with one of the five, \<open>crypto\<close> among them, is curated if and only if no other
  column has a failure case for it, a \<open>transaction_id\<close> shared with another record being
  such a failure.
\<close>

theorem payment_method_membership:
  assumes "main L (read_csv cols data) = Inr r" and "i < length data"
    and "cell_at cols ''payment_method'' (data ! i) = Str s"
  shows "((\<exists>fc \<in> set (failure_cases L schema (read_csv cols data)).
              fc_column fc = ''payment_method'' \<and> fc_index fc = Some i)
          \<longleftrightarrow> s \<notin> set [''credit_card'', ''paypal'', ''debit_card'', ''bank_transfer'', ''crypto''])
       \<and> ((\<exists>q. quarantine_file r = Some q \<and> (i, data ! i) \<in> set (rows q))
          \<longleftrightarrow> (\<exists>fc \<in> set (failure_cases L schema (read_csv cols data)). fc_index fc = Some i))
       \<and> (i \<in> fst ` set (rows (curated_file r))
          \<longleftrightarrow> \<not> (\<exists>fc \<in> set (failure_cases L schema (read_csv cols data)). fc_index fc = Some i))
       \<and> (s \<in> set [''credit_card'', ''paypal'', ''debit_card'', ''bank_transfer'', ''crypto'']
          \<longrightarrow> (i \<in> fst ` set (rows (curated_file r))
               \<longleftrightarrow> \<not> (\<exists>fc \<in> set (failure_cases L schema (read_csv cols data)).
                        fc_column fc \<noteq> ''payment_method'' \<and> fc_index fc = Some i)))"
proof -
  let ?df = "read_csv cols data"
  let ?F = "failure_cases L schema ?df"
  let ?pm = "\<lparr>col_name = ''payment_method'', col_dtype = PaString,
      col_checks = [Isin_str [''credit_card'', ''paypal'', ''debit_card'', ''bank_transfer'',
                              ''crypto'']],
      col_unique = False\<rparr>"
  have mem: "?pm \<in> set schema" by (simp add: schema_def)
  have only: "\<And>col. col \<in> set schema \<Longrightarrow> col_name col = ''payment_method'' \<Longrightarrow> col = ?pm"
    by (auto simp: schema_def)
  from assms(1) obtain g b where s: "separate L schema ?df = Inr (g, b)"
    and c: "curated_file r = g" and q: "quarantine_file r = (if \<not> empty b then Some b else None)"
    by (rule main_Inr)
  have "\<not> frame_bad L schema cols (set data)" using s by (rule separate_not_frame_bad)
  then have pres: "''payment_method'' \<in> set cols"
    by (rule schema_columns_present) (simp add: schema_columns_def)
  have sub: "set (column_failures L ?pm ?df) \<subseteq> set ?F"
    using mem pres by (intro column_failures_subset) (simp_all add: columns_read_csv)
  have 1: "(\<exists>fc \<in> set ?F. fc_column fc = ''payment_method'' \<and> fc_index fc = Some i)
        \<longleftrightarrow> s \<notin> set [''credit_card'', ''paypal'', ''debit_card'', ''bank_transfer'', ''crypto'']"
  proof -
    have "(\<exists>fc \<in> set ?F. fc_column fc = ''payment_method'' \<and> fc_index fc = Some i)
        \<longleftrightarrow> Some i \<in> fc_index ` set (column_failures L ?pm ?df)"
    proof
      assume "\<exists>fc \<in> set ?F. fc_column fc = ''payment_method'' \<and> fc_index fc = Some i"
      then obtain fc where fc: "fc \<in> set ?F" "fc_column fc = ''payment_method''" "fc_index fc = Some i"
        by blast
      from failure_cases_row_column[OF fc(1,3)] obtain col where
        col: "col \<in> set schema" "fc \<in> set (column_failures L col ?df)" by blast
      have "col_name col = ''payment_method''"
        using column_failures_column[OF col(2)] fc(2) by simp
      then have "col = ?pm" using only col(1) by blast
      then show "Some i \<in> fc_index ` set (column_failures L ?pm ?df)"
        using col(2) fc(3) by (intro image_eqI[where x = fc]) simp_all
    next
      assume "Some i \<in> fc_index ` set (column_failures L ?pm ?df)"
      then obtain fc where fc: "fc \<in> set (column_failures L ?pm ?df)" "fc_index fc = Some i"
        unfolding image_iff by (elim bexE) simp
      have "fc_column fc = ''payment_method''"
        using column_failures_column[OF fc(1)] by simp
      then show "\<exists>fc \<in> set ?F. fc_column fc = ''payment_method'' \<and> fc_index fc = Some i"
        using fc sub by blast
    qed
    then show ?thesis using payment_method_failure[OF assms(2,3)] by simp
  qed
  have I: "(\<exists>fc \<in> set ?F. fc_index fc = Some i) \<longleftrightarrow> Some i \<in> fc_index ` set ?F"
    unfolding image_iff by (rule bex_cong[OF refl]) (rule eq_commute)
  have row: "(i, data ! i) \<in> set (rows ?df)" using assms(2) by (simp add: rows_read_csv)
  have rb: "rows b = filter (\<lambda>r. Some (fst r) \<in> fc_index ` set ?F) (rows ?df)"
    using separate_read_csv(4)[OF s] .
  have rg: "rows g = (if ?F = [] then rows (coerce_frame L schema ?df)
                else filter (\<lambda>r. Some (fst r) \<notin> fc_index ` set ?F) (rows ?df))"
    using separate_read_csv(5)[OF s] .
  have cb: "columns b \<noteq> []" using separate_read_csv(2)[OF s] pres by auto
  have 2: "(\<exists>q. quarantine_file r = Some q \<and> (i, data ! i) \<in> set (rows q))
        \<longleftrightarrow> (\<exists>fc \<in> set ?F. fc_index fc = Some i)"
  proof
    assume "\<exists>q. quarantine_file r = Some q \<and> (i, data ! i) \<in> set (rows q)"
    then have "(i, data ! i) \<in> set (rows b)" using q by (auto split: if_splits)
    then show "\<exists>fc \<in> set ?F. fc_index fc = Some i" unfolding I rb by simp
  next
    assume "\<exists>fc \<in> set ?F. fc_index fc = Some i"
    then have m: "(i, data ! i) \<in> set (rows b)" unfolding I rb using row by simp
    then have "\<not> empty b" using cb by (auto simp: empty_def)
    then show "\<exists>q. quarantine_file r = Some q \<and> (i, data ! i) \<in> set (rows q)"
      using q m by simp
  qed
  have lg: "i \<in> fst ` set (rows g) \<longleftrightarrow> Some i \<notin> fc_index ` set ?F"
  proof (cases "?F = []")
    case True
    have "map fst (rows (coerce_frame L schema ?df)) = [0..<length data]"
      by (simp add: coerce_frame_def case_prod_unfold comp_def labels_read_csv)
    then have "set (map fst (rows g)) = {0..<length data}"
      using rg True by simp
    then have "fst ` set (rows g) = {0..<length data}" by simp
    then show ?thesis using True assms(2) by simp
  next
    case False
    have u: "\<And>cells. (i, cells) \<in> set (rows ?df) \<Longrightarrow> cells = data ! i"
      by (simp add: rows_read_csv)
    have "i \<in> fst ` set (rows g) \<longleftrightarrow> (\<exists>cells. (i, cells) \<in> set (rows g))"
    proof
      assume "i \<in> fst ` set (rows g)"
      then obtain x where x: "x \<in> set (rows g)" "i = fst x" by (rule imageE)
      then have "(i, snd x) \<in> set (rows g)" by simp
      then show "\<exists>cells. (i, cells) \<in> set (rows g)" ..
    next
      assume "\<exists>cells. (i, cells) \<in> set (rows g)"
      then obtain cells where "(i, cells) \<in> set (rows g)" ..
      then have "fst (i, cells) \<in> fst ` set (rows g)" by (rule imageI)
      then show "i \<in> fst ` set (rows g)" by simp
    qed
    also have "\<dots> \<longleftrightarrow> (\<exists>cells. (i, cells) \<in> set (rows ?df) \<and> Some i \<notin> fc_index ` set ?F)"
      using rg False by simp
    also have "\<dots> \<longleftrightarrow> Some i \<notin> fc_index ` set ?F"
      using row by blast
    finally show ?thesis .
  qed
  have 3: "i \<in> fst ` set (rows (curated_file r)) \<longleftrightarrow> \<not> (\<exists>fc \<in> set ?F. fc_index fc = Some i)"
    unfolding c I using lg .
  have 4: "s \<in> set [''credit_card'', ''paypal'', ''debit_card'', ''bank_transfer'', ''crypto'']
      \<longrightarrow> (i \<in> fst ` set (rows (curated_file r))
           \<longleftrightarrow> \<not> (\<exists>fc \<in> set ?F. fc_column fc \<noteq> ''payment_method'' \<and> fc_index fc = Some i))"
    using 1 3 by blast
  show ?thesis using 1 2 3 4 by blast
qed

theorem payment_method_membership_witness:
  "main example_lib (read_csv schema_columns [crypto_row, cash_row])
     = Inr \<lparr>curated_file = \<lparr>columns = schema_columns, rows = [(0, crypto_row)]\<rparr>,
            quarantine_file = Some \<lparr>columns = schema_columns, rows = [(1, cash_row)]\<rparr>,
            summary = [Total_records 2, Valid_records 1 (1 / 2), Invalid_records 1 (1 / 2),
              Moved_to_quarantine, Saved_to_curated]\<rparr>
   \<and> cell_at schema_columns ''payment_method'' ([crypto_row, cash_row] ! 1) = Str ''cash''
   \<and> ''cash'' \<notin> set [''credit_card'', ''paypal'', ''debit_card'', ''bank_transfer'', ''crypto'']
   \<and> (1, cash_row) \<in> set [(1 :: nat, cash_row)]
   \<and> cell_at schema_columns ''payment_method'' ([crypto_row, cash_row] ! 0) = Str ''crypto''
   \<and> 0 \<in> fst ` set [(0 :: nat, crypto_row)]"
proof -
  have h: "main example_lib (read_csv schema_columns [crypto_row, cash_row])
     = Inr \<lparr>curated_file = \<lparr>columns = schema_columns, rows = [(0, crypto_row)]\<rparr>,
            quarantine_file = Some \<lparr>columns = schema_columns, rows = [(1, cash_row)]\<rparr>,
            summary = [Total_records 2, Valid_records 1 (1 / 2), Invalid_records 1 (1 / 2),
              Moved_to_quarantine, Saved_to_curated]\<rparr>"
    by code_simp
  have c1: "cell_at schema_columns ''payment_method'' ([crypto_row, cash_row] ! 1) = Str ''cash''"
    by code_simp
  have c0: "cell_at schema_columns ''payment_method'' ([crypto_row, cash_row] ! 0) = Str ''crypto''"
    by code_simp
  from payment_method_membership[OF h _ c1] payment_method_membership[OF h _ c0]
  show ?thesis using h c1 c0 by simp
qed

subsection \<open>Aborted runs\<close>

text \<open>
  Claim C6 (strict columns). A column of the batch that the schema does not have, or a
  column of the schema that the batch does not have, is recorded as a failure case that
  names the column and has no row index. \<open>main\<close> then looks the missing index up among the
  row labels, which raises: the run aborts for every batch with the extra column \<open>notes\<close>
  and for every batch without the column \<open>is_chargeback\<close>, with \<open>KeyError\<close> for one
  otherwise valid row.
\<close>

theorem strict_violation_aborts:
  "(\<exists>e. main L (read_csv (schema_columns @ [''notes'']) data) = Inl e)
   \<and> (\<exists>e. main L (read_csv (butlast schema_columns) data) = Inl e)
   \<and> failure_cases example_lib schema (read_csv (schema_columns @ [''notes'']) [crypto_row @ [Str ''x'']])
       = [\<lparr>fc_column = ''notes'', fc_check = ''column_in_schema'', fc_index = None\<rparr>]
   \<and> main example_lib (read_csv (schema_columns @ [''notes'']) [crypto_row @ [Str ''x'']])
       = Inl KeyError"
proof -
  have "frame_bad L schema (schema_columns @ [''notes'']) (set data)"
    unfolding frame_bad_def by (simp add: schema_def schema_columns_def)
  then have 1: "\<exists>e. main L (read_csv (schema_columns @ [''notes'']) data) = Inl e"
    by (rule frame_bad_aborts)
  have "frame_bad L schema (butlast schema_columns) (set data)"
    unfolding frame_bad_def by (simp add: schema_def schema_columns_def)
  then have 2: "\<exists>e. main L (read_csv (butlast schema_columns) data) = Inl e"
    by (rule frame_bad_aborts)
  have 3: "failure_cases example_lib schema (read_csv (schema_columns @ [''notes'']) [crypto_row @ [Str ''x'']])
       = [\<lparr>fc_column = ''notes'', fc_check = ''column_in_schema'', fc_index = None\<rparr>]"
    by code_simp
  have 4: "main example_lib (read_csv (schema_columns @ [''notes'']) [crypto_row @ [Str ''x'']])
       = Inl KeyError"
    by code_simp
  show ?thesis using 1 2 3 4 by blast
qed

text \<open>
  Claim C7 (validation failures do not abort). A record whose amount is the text \<open>abc\<close>
  cannot be coerced to a float, so the amount column stays as read and its check
  \<open>greater_than\<close> raises on the text. The failure case of the raised check has no row
  index, besides the one of the failed coercion with the index of the row, and sorting
  the two indices raises \<open>TypeError\<close>: the run aborts instead of quarantining the record.
\<close>

theorem text_amount_aborts:
  "failure_cases example_lib schema (read_csv schema_columns [text_amount_row])
     = [\<lparr>fc_column = ''amount'', fc_check = ''coerce_dtype'', fc_index = Some 0\<rparr>,
        \<lparr>fc_column = ''amount'', fc_check = ''greater_than'', fc_index = None\<rparr>]
   \<and> main example_lib (read_csv schema_columns [text_amount_row]) = Inl TypeError"
  by code_simp

text \<open>
  A record with a missing \<open>is_chargeback\<close> fails coercion and the null check with the
  index of its row only: the run completes and the record is quarantined.
\<close>

lemma blank_row_quarantined:
  "main example_lib (read_csv schema_columns [blank_row])
     = Inr \<lparr>curated_file = \<lparr>columns = schema_columns, rows = []\<rparr>,
            quarantine_file = Some \<lparr>columns = schema_columns, rows = [(0, blank_row)]\<rparr>,
            summary = [Total_records 1, Valid_records 0 0, Invalid_records 1 1,
              Moved_to_quarantine, Saved_to_curated]\<rparr>"
  by code_simp

text \<open>
  Claim C3 (partition completeness). A record with three failure cases of its own (a
  negative amount, a country of three letters that also fails the pattern) in a batch
  that has the extra column \<open>notes\<close>: the failure case of the column has no row index,
  sorting it with the index of the row raises \<open>TypeError\<close>, and the run ends without
  either output, so the row is in neither.
\<close>

theorem no_partition_on_abort:
  "map fc_index (failure_cases example_lib schema
       (read_csv (schema_columns @ [''notes'']) [broken_row @ [Str ''x'']]))
     = [None, Some 0, Some 0, Some 0]
   \<and> main example_lib (read_csv (schema_columns @ [''notes'']) [broken_row @ [Str ''x'']])
     = Inl TypeError"
  by code_simp


subsection \<open>Coercion is idempotent\<close>

lemma coerce_cell_idem: "coerce_cell L t c = Some v \<Longrightarrow> coerce_cell L t v = Some v"
  by (cases t; cases c) auto

lemma position_less: "c \<in> set cols \<Longrightarrow> position c cols < length cols \<and> cols ! position c cols = c"
  by (induction cols) auto

lemma find_distinct:
  assumes "distinct (map col_name S)" and "col \<in> set S"
  shows "find (\<lambda>x. col_name x = col_name col) S = Some col"
  using assms by (induction S) (auto simp: image_iff)

lemma length_coerce_row: "length (coerce_row L S cols cells) = min (length cols) (length cells)"
  by (simp add: coerce_row_def)

lemma cell_at_coerce_row:
  assumes "distinct (map col_name S)" and "col \<in> set S" and "col_name col \<in> set cols"
    and "cv L col cols cells = Some v"
  shows "cell_at cols (col_name col) (coerce_row L S cols cells) = v"
proof -
  define k where "k = position (col_name col) cols"
  have k: "k < length cols" "cols ! k = col_name col"
    using position_less[OF assms(3)] by (simp_all add: k_def)
  show ?thesis
  proof (cases "k < length cells")
    case True
    then have c: "coerce_cell L (col_dtype col) (cells ! k) = Some v"
      using assms(4) by (simp add: cv_def cell_at_def k_def)
    have "coerce_row L S cols cells ! k = v"
      using True k c find_distinct[OF assms(1,2)] by (simp add: coerce_row_def)
    then show ?thesis
      using True k by (simp add: cell_at_def k_def[symmetric] length_coerce_row)
  next
    case False
    then have "coerce_cell L (col_dtype col) NaN = Some v"
      using assms(4) by (simp add: cv_def cell_at_def k_def)
    then have "v = NaN" by (cases "col_dtype col") auto
    then show ?thesis
      using False by (simp add: cell_at_def k_def[symmetric] length_coerce_row)
  qed
qed

lemma cv_coerce_row:
  assumes "distinct (map col_name S)" and "col \<in> set S" and "col_name col \<in> set cols"
    and "cv L col cols cells = Some v"
  shows "cv L col cols (coerce_row L S cols cells) = Some v"
proof -
  have "coerce_cell L (col_dtype col) v = Some v"
    using assms(4) unfolding cv_def by (rule coerce_cell_idem)
  then show ?thesis
    unfolding cv_def cell_at_coerce_row[OF assms] .
qed

lemma coerce_row_idem:
  "coerce_row L S cols (coerce_row L S cols cells) = coerce_row L S cols cells"
proof (rule nth_equalityI)
  show "length (coerce_row L S cols (coerce_row L S cols cells)) = length (coerce_row L S cols cells)"
    by (simp add: length_coerce_row)
next
  fix k assume "k < length (coerce_row L S cols (coerce_row L S cols cells))"
  then have k: "k < length cols" "k < length cells" by (simp_all add: length_coerce_row)
  show "coerce_row L S cols (coerce_row L S cols cells) ! k = coerce_row L S cols cells ! k"
  proof (cases "find (\<lambda>col. col_name col = cols ! k) S")
    case None
    then show ?thesis using k by (simp add: coerce_row_def)
  next
    case (Some col)
    show ?thesis
    proof (cases "coerce_cell L (col_dtype col) (cells ! k)")
      case None
      then show ?thesis using k Some by (simp add: coerce_row_def)
    next
      case (Some v)
      then have "coerce_cell L (col_dtype col) v = Some v" by (rule coerce_cell_idem)
      then show ?thesis using k \<open>find _ S = Some col\<close> Some by (simp add: coerce_row_def)
    qed
  qed
qed

subsection \<open>Separating the outputs again\<close>

lemma rows_coerce_frame:
  "map snd (rows (coerce_frame L S df)) = map (coerce_row L S (columns df)) (map snd (rows df))"
  by (simp add: coerce_frame_def case_prod_unfold comp_def)

lemma columns_coerce_frame: "columns (coerce_frame L S df) = columns df"
  by (simp add: coerce_frame_def)

lemma coerce_frame_idem: "coerce_frame L S (coerce_frame L S df) = coerce_frame L S df"
  by (simp add: coerce_frame_def case_prod_unfold comp_def coerce_row_idem)

lemma failure_cases_coerce_frame:
  assumes d: "distinct (map col_name S)" and e: "failure_cases L S df = []"
  shows "failure_cases L S (coerce_frame L S df) = []"
proof -
  define cols where "cols = columns df"
  define data where "data = map snd (rows df)"
  define data' where "data' = map (coerce_row L S cols) data"
  have sd: "snd ` set (rows df) = set data" by (simp add: data_def)
  have sd': "snd ` set (rows (coerce_frame L S df)) = set data'"
    using rows_coerce_frame[of L S df] by (simp add: data'_def data_def cols_def flip: set_map)
  have md': "map snd (rows (coerce_frame L S df)) = data'"
    by (simp add: rows_coerce_frame data'_def data_def cols_def)
  from e have nf: "\<not> frame_bad L S cols (set data)"
    and nr: "\<forall>cells \<in> set data. \<not> row_bad L S cols data cells"
    unfolding failure_cases_empty_iff sd cols_def data_def by auto
  have ok: "col_ok L col cols (set data)"
    if "col \<in> set S" "col_name col \<in> set cols" for col
    unfolding col_ok_def
  proof
    fix cells assume "cells \<in> set data"
    then have "\<not> row_bad L S cols data cells" using nr by blast
    then have "\<not> cell_bad L col cols data cells" using that unfolding row_bad_def by blast
    then show "cv L col cols cells \<noteq> None" unfolding cell_bad_def Let_def by simp
  qed
  have K: "cv L col cols (coerce_row L S cols cells) = cv L col cols cells"
    if "col \<in> set S" "col_name col \<in> set cols" "cells \<in> set data" for col cells
  proof -
    have "cv L col cols cells \<noteq> None" using ok[OF that(1,2)] that(3) unfolding col_ok_def by blast
    then obtain v where v: "cv L col cols cells = Some v" by blast
    show ?thesis using cv_coerce_row[OF d that(1,2) v] v by simp
  qed
  define R' where "R' = set data'"
  have R': "R' = coerce_row L S cols ` set data" by (simp add: R'_def data'_def)
  have bi: "\<And>P. (\<exists>cells \<in> R'. P cells) \<longleftrightarrow> (\<exists>cells \<in> set data. P (coerce_row L S cols cells))"
    unfolding R' by simp
  have ok': "col_ok L col cols R'"
    if "col \<in> set S" "col_name col \<in> set cols" for col
    using ok[OF that] K[OF that] unfolding col_ok_def R' by auto
  have V: "col_val L col cols R' (coerce_row L S cols cells) = col_val L col cols (set data) cells"
    if "col \<in> set S" "col_name col \<in> set cols" "cells \<in> set data" for col cells
    using ok[OF that(1,2)] ok'[OF that(1,2)] K[OF that] by (simp add: col_val_def)
  have cb: "column_bad L col cols R' = column_bad L col cols (set data)"
    if "col \<in> set S" "col_name col \<in> set cols" for col
  proof -
    have "column_bad L col cols R' \<longleftrightarrow>
        (\<exists>ch \<in> set (col_checks col). \<exists>cells \<in> set data.
           col_val L col cols R' (coerce_row L S cols cells) \<noteq> NaN
           \<and> run_check ch (col_val L col cols R' (coerce_row L S cols cells)) = Raise)"
      unfolding column_bad_def bi ..
    then show ?thesis unfolding column_bad_def[of L col cols "set data"] using V[OF that] by simp
  qed
  have nf': "\<not> frame_bad L S cols (set data')"
    using nf cb unfolding frame_bad_def R'_def by blast
  have vals: "map (col_val L col cols R') data' = map (col_val L col cols (set data)) data"
    if "col \<in> set S" "col_name col \<in> set cols" for col
    unfolding data'_def using V[OF that] by simp
  have clb: "cell_bad L col cols data' (coerce_row L S cols cells) = cell_bad L col cols data cells"
    if "col \<in> set S" "col_name col \<in> set cols" "cells \<in> set data" for col cells
    unfolding cell_bad_def R'_def[symmetric] vals[OF that(1,2)] K[OF that] V[OF that] ..
  have nr': "\<forall>cells \<in> set data'. \<not> row_bad L S cols data' cells"
  proof
    fix cells' assume "cells' \<in> set data'"
    then obtain cells where c: "cells \<in> set data" "cells' = coerce_row L S cols cells"
      by (auto simp: data'_def)
    have "row_bad L S cols data' cells' = row_bad L S cols data cells"
      unfolding row_bad_def c(2) using clb c(1) by blast
    then show "\<not> row_bad L S cols data' cells'" using nr c(1) by simp
  qed
  show ?thesis
    unfolding failure_cases_empty_iff sd' md' columns_coerce_frame cols_def[symmetric]
    using nf' nr' by simp
qed

lemma separate_success:
  "failure_cases L S df = [] \<Longrightarrow>
   separate L S df = Inr (coerce_frame L S df, \<lparr>columns = columns df, rows = []\<rparr>)"
  by (simp add: separate_def validate_def)

lemma sorted_set_Some:
  assumes "None \<notin> set xs"
  shows "sorted_set xs = Inr (map Some (sort (remdups (map the xs))))"
  using assms by (auto simp: sorted_set_def list_ex_iff)

lemma separate_failure:
  assumes ne: "failure_cases L S df \<noteq> []"
    and nn: "None \<notin> fc_index ` set (failure_cases L S df)"
    and lab: "\<forall>i. Some i \<in> fc_index ` set (failure_cases L S df) \<longrightarrow> i \<in> fst ` set (rows df)"
  shows "separate L S df
     = Inr (df\<lparr>rows := filter (\<lambda>r. Some (fst r) \<notin> fc_index ` set (failure_cases L S df)) (rows df)\<rparr>,
            df\<lparr>rows := concat (map (\<lambda>l. filter (\<lambda>r. fst r = l) (rows df))
                     (sort (remdups (map the (map fc_index (failure_cases L S df))))))\<rparr>)"
proof -
  define idx where "idx = map fc_index (failure_cases L S df)"
  define ls where "ls = map Some (sort (remdups (map the idx)))"
  have nn': "None \<notin> set idx" using nn by (simp add: idx_def)
  have ss: "sorted_set idx = Inr ls" unfolding ls_def using nn' by (rule sorted_set_Some)
  have "\<And>x. x \<in> set idx \<Longrightarrow> Some (the x) = x" using nn' by (case_tac x) auto
  then have setls: "set ls = set idx" by (auto simp: ls_def image_iff)
  have hl: "has_labels df ls"
    unfolding has_labels_def list_all_iff setls
  proof
    fix x assume x: "x \<in> set idx"
    have "x \<noteq> None" using x nn' by metis
    then obtain i where "x = Some i" by (metis not_None_eq)
    then show "x \<in> set (map (Some \<circ> fst) (rows df))"
      using lab x by (auto simp: idx_def image_iff)
  qed
  have f: "(\<lambda>r :: nat \<times> cell list. Some (fst r) \<notin> set ls)
        = (\<lambda>r. Some (fst r) \<notin> fc_index ` set (failure_cases L S df))"
    by (simp add: setls idx_def)
  have c: "concat (map (\<lambda>l. filter (\<lambda>r. Some (fst r) = l) (rows df)) ls)
        = concat (map (\<lambda>l. filter (\<lambda>r. fst r = l) (rows df)) (sort (remdups (map the idx))))"
    by (simp add: ls_def comp_def)
  show ?thesis
    using ne ss hl
    by (simp add: separate_def validate_def and_then_def loc_def drop_index_def f c
        flip: idx_def)
qed

lemma separate_total:
  assumes nfb: "\<not> frame_bad L S (columns df) (snd ` set (rows df))"
  shows "\<exists>g b. separate L S df = Inr (g, b)"
proof (cases "failure_cases L S df = []")
  case True
  then show ?thesis using separate_success by blast
next
  case False
  let ?I = "fc_index ` set (failure_cases L S df)"
  have nn: "None \<notin> ?I" using nfb by (simp add: failure_cases_None)
  have lab: "\<forall>i. Some i \<in> ?I \<longrightarrow> i \<in> fst ` set (rows df)"
  proof (intro allI impI)
    fix i assume "Some i \<in> ?I"
    then obtain cells where "(i, cells) \<in> set (rows df)"
      unfolding failure_cases_Some[OF nfb] by blast
    then have "fst (i, cells) \<in> fst ` set (rows df)" by (rule imageI)
    then show "i \<in> fst ` set (rows df)" by simp
  qed
  show ?thesis using separate_failure[OF False nn lab] by blast
qed

lemma snd_filter_zip:
  "length xs = length ys \<Longrightarrow>
   map snd (filter (\<lambda>(i, c). P c) (zip xs ys)) = filter P ys"
  by (induction xs ys rule: list_induct2) auto

lemma coerce_frame_read_csv:
  "coerce_frame L S (read_csv cols data) = read_csv cols (map (coerce_row L S cols) data)"
proof -
  have "map (\<lambda>(i, cells). (i, coerce_row L S cols cells)) (zip [0..<length data] data)
      = zip [0..<length data] (map (coerce_row L S cols) data)"
    by (intro nth_equalityI) auto
  then show ?thesis by (simp add: coerce_frame_def read_csv_def)
qed

lemma reread_failure:
  assumes s: "separate L S (read_csv cols data) = Inr (g, b)"
    and ex: "\<exists>cells \<in> set data. row_bad L S cols data cells"
  shows "\<exists>g' b'. separate L S (read_csv cols (snd (to_csv g) @ snd (to_csv b))) = Inr (g', b')
       \<and> to_csv g' = to_csv g \<and> to_csv b' = to_csv b"
proof -
  define P where "P = row_bad L S cols data"
  define data' where "data' = filter (\<lambda>c. \<not> P c) data @ filter P data"
  have sg: "snd (to_csv g) = filter (\<lambda>c. \<not> P c) data"
    using separate_rows(2)[OF s] ex
    by (simp add: to_csv_def P_def snd_filter_zip[where P = "\<lambda>c. \<not> row_bad L S cols data c"])
  have sb: "snd (to_csv b) = filter P data"
    using separate_rows(1)[OF s] by (simp add: to_csv_def P_def snd_filter_zip)
  have inp: "snd (to_csv g) @ snd (to_csv b) = data'" by (simp add: sg sb data'_def)
  have ms: "mset data' = mset data" by (simp add: data'_def add.commute)
  then have st: "set data' = set data" by (rule mset_eq_setD)
  have P': "row_bad L S cols data' = P" unfolding P_def by (rule row_bad_perm[OF ms])
  have "\<not> frame_bad L S cols (set data)" using s by (rule separate_not_frame_bad)
  then have "\<not> frame_bad L S (columns (read_csv cols data')) (snd ` set (rows (read_csv cols data')))"
    by (simp add: columns_read_csv data_read_csv st flip: set_map)
  then obtain g' b' where s': "separate L S (read_csv cols data') = Inr (g', b')"
    using separate_total by blast
  have ex': "\<exists>cells \<in> set data'. row_bad L S cols data' cells"
    using ex unfolding P' st P_def .
  have fG: "filter P (filter (\<lambda>c. \<not> P c) data) = []" by (simp add: filter_empty_conv)
  have fB: "filter (\<lambda>c. \<not> P c) (filter P data) = []" by (simp add: filter_empty_conv)
  have rb': "map snd (rows b') = filter P data"
    using separate_rows(1)[OF s'] unfolding P'
    by (simp add: snd_filter_zip) (simp add: data'_def fG)
  have rg': "map snd (rows g') = filter (\<lambda>c. \<not> P c) data"
    using separate_rows(2)[OF s'] ex' unfolding P'
    by (simp add: snd_filter_zip[where P = "\<lambda>c. \<not> P c"]) (simp add: data'_def fB)
  have "to_csv g' = to_csv g"
    using rg' sg separate_read_csv(1)[OF s] separate_read_csv(1)[OF s'] by (simp add: to_csv_def)
  moreover have "to_csv b' = to_csv b"
    using rb' sb separate_read_csv(2)[OF s] separate_read_csv(2)[OF s'] by (simp add: to_csv_def)
  ultimately show ?thesis using s' unfolding inp by blast
qed

lemma reread_success:
  assumes d: "distinct (map col_name S)" and e: "failure_cases L S (read_csv cols data) = []"
  shows "separate L S (read_csv cols (snd (to_csv (coerce_frame L S (read_csv cols data))) @ []))
       = Inr (coerce_frame L S (read_csv cols data), \<lparr>columns = cols, rows = []\<rparr>)"
proof -
  let ?cf = "coerce_frame L S (read_csv cols data)"
  have cf: "?cf = read_csv cols (map (coerce_row L S cols) data)" by (rule coerce_frame_read_csv)
  have inp: "read_csv cols (snd (to_csv ?cf) @ []) = ?cf"
    unfolding cf by (simp add: to_csv_def data_read_csv)
  have "failure_cases L S ?cf = []" using d e by (rule failure_cases_coerce_frame)
  then have "separate L S ?cf = Inr (coerce_frame L S ?cf, \<lparr>columns = columns ?cf, rows = []\<rparr>)"
    by (rule separate_success)
  then show ?thesis
    unfolding inp by (simp add: coerce_frame_idem columns_coerce_frame columns_read_csv)
qed

text \<open>
  Claim C5 (idempotence). The columns of a schema are the entries of a dictionary, so
  their names are distinct. When the separation of a batch returns \<open>df_good\<close> and
  \<open>df_bad\<close>, take the rows the curated file has followed by the rows the quarantine file
  has, with the cells as the two outputs hold them, as a new batch (its index labels are
  the ones \<open>read_csv\<close> gives). Its separation returns too, and its outputs are written
  as the same two files: the same header and the same rows in the same order.
\<close>

theorem rerun_idempotent:
  assumes "distinct (map col_name S)"
    and "separate L S (read_csv cols data) = Inr (df_good, df_bad)"
  shows "\<exists>g b. separate L S (read_csv cols (snd (to_csv df_good) @ snd (to_csv df_bad))) = Inr (g, b)
       \<and> to_csv g = to_csv df_good \<and> to_csv b = to_csv df_bad"
proof (cases "\<exists>cells \<in> set data. row_bad L S cols data cells")
  case True
  with assms(2) show ?thesis by (rule reread_failure)
next
  case False
  let ?df = "read_csv cols data"
  have "\<not> frame_bad L S (columns ?df) (snd ` set (rows ?df))"
    using separate_not_frame_bad[OF assms(2)]
    by (simp add: columns_read_csv data_read_csv flip: set_map)
  then have e: "failure_cases L S ?df = []"
    unfolding failure_cases_empty_iff using False
    by (simp add: columns_read_csv data_read_csv flip: set_map)
  have "separate L S ?df = Inr (coerce_frame L S ?df, \<lparr>columns = columns ?df, rows = []\<rparr>)"
    using e by (rule separate_success)
  then have gb: "df_good = coerce_frame L S ?df" "df_bad = \<lparr>columns = cols, rows = []\<rparr>"
    using assms(2) by (simp_all add: columns_read_csv)
  have "snd (to_csv df_bad) = []" by (simp add: gb to_csv_def)
  then show ?thesis
    using reread_success[OF assms(1) e] unfolding gb by simp
qed

theorem rerun_idempotent_witness:
  "distinct (map col_name schema)
   \<and> separate example_lib schema (read_csv schema_columns [broken_row, crypto_row, cash_row])
     = Inr (\<lparr>columns = schema_columns, rows = [(1, crypto_row)]\<rparr>,
            \<lparr>columns = schema_columns, rows = [(0, broken_row), (2, cash_row)]\<rparr>)
   \<and> separate example_lib schema (read_csv schema_columns [crypto_row, broken_row, cash_row])
     = Inr (\<lparr>columns = schema_columns, rows = [(0, crypto_row)]\<rparr>,
            \<lparr>columns = schema_columns, rows = [(1, broken_row), (2, cash_row)]\<rparr>)
   \<and> to_csv \<lparr>columns = schema_columns, rows = [(0, crypto_row)]\<rparr>
     = to_csv \<lparr>columns = schema_columns, rows = [(1, crypto_row)]\<rparr>
   \<and> to_csv \<lparr>columns = schema_columns, rows = [(1, broken_row), (2, cash_row)]\<rparr>
     = to_csv \<lparr>columns = schema_columns, rows = [(0, broken_row), (2, cash_row)]\<rparr>"
proof -
  have d: "distinct (map col_name schema)" by (simp add: schema_def)
  have h: "separate example_lib schema (read_csv schema_columns [broken_row, crypto_row, cash_row])
     = Inr (\<lparr>columns = schema_columns, rows = [(1, crypto_row)]\<rparr>,
            \<lparr>columns = schema_columns, rows = [(0, broken_row), (2, cash_row)]\<rparr>)"
    by code_simp
  have h': "separate example_lib schema (read_csv schema_columns [crypto_row, broken_row, cash_row])
     = Inr (\<lparr>columns = schema_columns, rows = [(0, crypto_row)]\<rparr>,
            \<lparr>columns = schema_columns, rows = [(1, broken_row), (2, cash_row)]\<rparr>)"
    by code_simp
  from rerun_idempotent[OF d h] show ?thesis using d h h' by (simp add: to_csv_def)
qed

subsection \<open>When a run completes\<close>

text \<open>
  A run completes exactly when no failure case lacks a row index; a batch whose rows are
  all invalid then has an empty curated output and is quarantined as a whole.
\<close>

lemma run_completes:
  assumes "\<not> frame_bad L schema cols (set data)"
  shows "\<exists>r. main L (read_csv cols data) = Inr r"
proof -
  let ?df = "read_csv cols data"
  have nfb: "\<not> frame_bad L schema (columns ?df) (snd ` set (rows ?df))"
    using assms by (simp add: columns_read_csv data_read_csv flip: set_map)
  have "\<exists>g b. separate L schema ?df = Inr (g, b)"
    using nfb by (rule separate_total)
  then show ?thesis using main_of_separate by blast
qed

lemma all_invalid_quarantined:
  assumes "main L (read_csv cols data) = Inr r" and "data \<noteq> []"
    and "\<forall>cells \<in> set data. row_bad L schema cols data cells"
  shows "rows (curated_file r) = []"
    and "quarantine_file r = Some (read_csv cols data)"
proof -
  from assms(1) obtain g b where s: "separate L schema (read_csv cols data) = Inr (g, b)"
    and c: "curated_file r = g" and q: "quarantine_file r = (if \<not> empty b then Some b else None)"
    by (rule main_Inr)
  have ex: "\<exists>cells \<in> set data. row_bad L schema cols data cells"
    using assms(2,3) by (cases data) auto
  have all: "\<And>x. x \<in> set (zip [0..<length data] data) \<Longrightarrow> row_bad L schema cols data (snd x)"
    using assms(3) by (auto dest: set_zip_rightD)
  have rb: "rows b = zip [0..<length data] data"
    unfolding separate_rows(1)[OF s] by (rule filter_True) (use all in auto)
  have rg: "rows g = []"
    using separate_rows(2)[OF s] ex all by (auto simp: filter_empty_conv)
  show "rows (curated_file r) = []" using c rg by simp
  have b: "b = read_csv cols data"
    using separate_read_csv(2)[OF s] rb by (cases b) (simp add: read_csv_def)
  have "\<not> frame_bad L schema cols (set data)" using s by (rule separate_not_frame_bad)
  then have "''transaction_id'' \<in> set cols"
    by (rule schema_columns_present) (simp add: schema_columns_def)
  then have "\<not> empty b" using assms(2) by (auto simp: b empty_def read_csv_def)
  then show "quarantine_file r = Some (read_csv cols data)" using q b by simp
qed

end
